theory Spec2Isabelle
  imports Main "HOL-Library.Sublist"
begin

section \<open>Data model\<close>

text \<open>
  An entry of the \<open>pages\<close> array, typed \<open>(number | string)[]\<close> in the source: a page
  number or a string (the only string ever stored is the gap symbol). Page numbers are
  mathematical integers: the model covers the range in which JavaScript numbers are exact.
\<close>

datatype token = Num int | Str string

text \<open>
  A number as the validators see it. They ask \<open>Number.isInteger\<close> first and compare a
  value only after that test has succeeded, so a value that fails the test (a fraction,
  \<open>NaN\<close>, an infinity) needs no further structure.
\<close>

datatype number = IntVal int | NonInt

text \<open>The interface \<open>PaginationOptions\<close>; an optional field that is absent is \<open>None\<close>.\<close>

record PaginationOptions =
  opt_current :: number
  opt_max :: number
  opt_pad :: "number option"
  opt_gapSymbol :: "string option"
  opt_jumpValues :: "number list option"

record PaginationResult =
  pages :: "token list"
  hasPrevious :: bool
  hasNext :: bool
  totalPages :: int
  currentPage :: int

text \<open>
  The source throws \<open>Error\<close> objects that differ in their message only:
  \<^item> \<open>InvalidCurrentPage\<close>: "Current page must be a positive integer"
  \<^item> \<open>InvalidMaxPages\<close>: "Max pages must be a positive integer"
  \<^item> \<open>CurrentExceedsMax\<close>: "Current page cannot be greater than max pages"
  \<^item> \<open>InvalidPad\<close>: "Pad must be a non-negative integer"
  \<^item> \<open>InvalidJumpValues EmptyJumps\<close>: "Jump values must be a non-empty array"
  \<^item> \<open>InvalidJumpValues NonPositiveJump\<close>: "All jump values must be positive integers"
  \<^item> \<open>InvalidJumpValues UnsortedJumps\<close>: "Jump values must be sorted in descending order"

  One more error comes from the runtime, not from a \<open>throw\<close> of the source:
  \<^item> \<open>InvalidArrayLength\<close>: the \<open>RangeError\<close> "Invalid array length" of \<open>Array.from\<close>,
    which creates its array with \<open>new Array(length)\<close> and so refuses a length above
    \<open>2^32 - 1\<close>.
\<close>

datatype jump_reason = EmptyJumps | NonPositiveJump | UnsortedJumps

datatype error =
    InvalidCurrentPage
  | InvalidMaxPages
  | CurrentExceedsMax
  | InvalidPad
  | InvalidJumpValues jump_reason
  | InvalidArrayLength

text \<open>The ellipsis U+2026 as its three UTF-8 bytes.\<close>

definition DEFAULT_GAP :: string where
  "DEFAULT_GAP = [CHR 0xE2, CHR 0x80, CHR 0xA6]"

definition DEFAULT_JUMP_VALUES :: "int list" where
  "DEFAULT_JUMP_VALUES = [50000, 25000, 10000, 5000, 1000, 500, 250, 100, 50, 25, 10, 5, 1]"

definition DEFAULT_PAD :: int where
  "DEFAULT_PAD = 2"

section \<open>JavaScript primitives used by the source\<close>

text \<open>\<open>xs[i]\<close>: \<open>None\<close> is \<open>undefined\<close>, the value of a read outside the array.\<close>

definition js_nth :: "'a list \<Rightarrow> int \<Rightarrow> 'a option" where
  "js_nth xs i = (if 0 \<le> i \<and> i < int (length xs) then Some (xs ! nat i) else None)"

text \<open>
  \<open>a % b\<close> on integers: the remainder of the division that truncates towards zero, with
  the sign of the dividend. The divisors of the source are jump values, which are positive.
\<close>

definition js_rem :: "int \<Rightarrow> int \<Rightarrow> int" where
  "js_rem a b = sgn a * (\<bar>a\<bar> mod \<bar>b\<bar>)"

text \<open>\<open>xs.findIndex(P)\<close> and \<open>xs.indexOf(v)\<close>: the first index, or \<open>-1\<close>.\<close>

fun findIndex :: "('a \<Rightarrow> bool) \<Rightarrow> 'a list \<Rightarrow> int" where
  "findIndex P [] = - 1"
| "findIndex P (x # xs) =
     (if P x then 0 else (let r = findIndex P xs in if r < 0 then - 1 else r + 1))"

definition indexOf :: "'a list \<Rightarrow> 'a \<Rightarrow> int" where
  "indexOf xs v = findIndex (\<lambda>x. x = v) xs"

text \<open>
  \<open>(a as number) + 1 !== b\<close> on array entries. On a string, \<open>+ 1\<close> appends the
  character \<open>1\<close>; a number and a string are never strictly equal.
\<close>

fun succ_differs :: "token \<Rightarrow> token \<Rightarrow> bool" where
  "succ_differs (Num a) b = (b \<noteq> Num (a + 1))"
| "succ_differs (Str s) b = (b \<noteq> Str (s @ ''1''))"

section \<open>Validation\<close>

definition int_of :: "number \<Rightarrow> int option" where
  "int_of x = (case x of IntVal i \<Rightarrow> Some i | NonInt \<Rightarrow> None)"

text \<open>\<open>Number.isInteger(x) && x > 0\<close>.\<close>

definition positive_integer :: "number \<Rightarrow> bool" where
  "positive_integer x = (case x of IntVal i \<Rightarrow> 0 < i | NonInt \<Rightarrow> False)"

text \<open>The loop of \<open>validateJumpValues\<close>: some \<open>jumps[i] <= jumps[i + 1]\<close>.\<close>

fun not_descending :: "int list \<Rightarrow> bool" where
  "not_descending (a # b # xs) = (a \<le> b \<or> not_descending (b # xs))"
| "not_descending _ = False"

text \<open>
  \<open>validateJumpValues\<close>; on success the model hands back the integers the array holds,
  which the source goes on using.
\<close>

definition validateJumpValues :: "number list \<Rightarrow> error + int list" where
  "validateJumpValues jumps =
     (if length jumps = 0 then Inl (InvalidJumpValues EmptyJumps)
      else if \<not> list_all positive_integer jumps then Inl (InvalidJumpValues NonPositiveJump)
      else (case those (map int_of jumps) of
              None \<Rightarrow> Inl (InvalidJumpValues NonPositiveJump)
            | Some js \<Rightarrow>
                if not_descending js then Inl (InvalidJumpValues UnsortedJumps) else Inr js))"

text \<open>
  \<open>validateInput\<close>; on success the model hands back the three integers. The caller has
  already replaced an absent \<open>pad\<close> by the default, and the function tests
  \<open>pad !== undefined\<close> again.
\<close>

definition validateInput :: "number \<Rightarrow> number \<Rightarrow> number option \<Rightarrow> error + (int \<times> int \<times> int option)" where
  "validateInput cur mx pd =
     (case cur of
        NonInt \<Rightarrow> Inl InvalidCurrentPage
      | IntVal c \<Rightarrow>
          if c < 1 then Inl InvalidCurrentPage
          else (case mx of
                  NonInt \<Rightarrow> Inl InvalidMaxPages
                | IntVal m \<Rightarrow>
                    if m < 1 then Inl InvalidMaxPages
                    else if c > m then Inl CurrentExceedsMax
                    else (case pd of
                            None \<Rightarrow> Inr (c, m, None)
                          | Some NonInt \<Rightarrow> Inl InvalidPad
                          | Some (IntVal p) \<Rightarrow>
                              if p < 0 then Inl InvalidPad else Inr (c, m, Some p))))"

section \<open>The anchor searches\<close>

text \<open>The \<open>margin\<close> loop of \<open>findLowerValuesFor\<close>, \<open>k\<close> iterations left.\<close>

fun marginLoop :: "int \<Rightarrow> int \<Rightarrow> int list \<Rightarrow> int \<Rightarrow> nat \<Rightarrow> int \<Rightarrow> int" where
  "marginLoop mn mx jumps jumpIndex 0 margin = margin"
| "marginLoop mn mx jumps jumpIndex (Suc k) margin =
     marginLoop mn mx jumps jumpIndex k
       (if jumpIndex - margin - 1 < int (length jumps) \<and>
           (case (js_nth jumps jumpIndex, js_nth jumps (jumpIndex - margin - 1)) of
              (Some j, Some jm) \<Rightarrow> mx - js_rem mx j - jm > mn
            | _ \<Rightarrow> False)
        then margin + 1 else margin)"

text \<open>
  \<open>findLowerValuesFor\<close>. \<open>None\<close> is \<open>NaN\<close>, which the source computes when it reads
  outside \<open>jumps\<close>.
\<close>

definition findLowerValuesFor :: "int \<Rightarrow> int \<Rightarrow> int \<Rightarrow> int \<Rightarrow> int list \<Rightarrow> int option" where
  "findLowerValuesFor mn mx iteration pd jumps =
     (let jumpIndex0 = findIndex (\<lambda>jump. jump < mx) jumps;
          jumpIndex = (if jumpIndex0 \<ge> 0 then jumpIndex0 else int (length jumps) - 1);
          margin = marginLoop mn mx jumps jumpIndex (nat (pd - iteration)) 0
      in if iteration \<le> 0 then
           (case js_nth jumps jumpIndex of
              None \<Rightarrow> None
            | Some j \<Rightarrow>
                if js_rem mx j = 0 then
                  (if margin \<noteq> 0
                   then map_option (\<lambda>jm. mx - j - jm) (js_nth jumps (jumpIndex - margin))
                   else Some (mx - j))
                else
                  (if margin \<noteq> 0
                   then map_option (\<lambda>jm. mx - js_rem mx j - jm) (js_nth jumps (jumpIndex - margin))
                   else Some (mx - js_rem mx j)))
         else map_option (\<lambda>jm. mx - jm) (js_nth jumps (jumpIndex - margin)))"

text \<open>The refinement loop of \<open>findLargerValuesFor\<close>, \<open>k\<close> iterations left.\<close>

fun refineLoop :: "int \<Rightarrow> int \<Rightarrow> int list \<Rightarrow> nat \<Rightarrow> int \<Rightarrow> int" where
  "refineLoop mn mx jumps 0 jumpIndex = jumpIndex"
| "refineLoop mn mx jumps (Suc k) jumpIndex =
     refineLoop mn mx jumps k
       (if jumpIndex + 1 < int (length jumps) \<and>
           (case js_nth jumps (jumpIndex + 1) of
              Some j \<Rightarrow> mn - js_rem mn j + j < mx
            | None \<Rightarrow> False)
        then jumpIndex + 1 else jumpIndex)"

definition findLargerValuesFor :: "int \<Rightarrow> int \<Rightarrow> int \<Rightarrow> int list \<Rightarrow> int option" where
  "findLargerValuesFor mn mx iteration jumps =
     (let jumpIndex0 = findIndex (\<lambda>jump. jump < mx \<and> mn - js_rem mn jump + jump < mx) jumps;
          jumpIndex1 = (if jumpIndex0 \<ge> 0 then jumpIndex0 else int (length jumps) - 1);
          jumpIndex = refineLoop mn mx jumps (nat iteration) jumpIndex1
      in (case js_nth jumps jumpIndex of
            None \<Rightarrow> None
          | Some j \<Rightarrow>
              if js_rem mn j = 0 then Some (mn + j) else Some (mn - js_rem mn j + j)))"

section \<open>The append rule\<close>

text \<open>
  The backward scan of \<open>addPage\<close> for \<open>gapAt\<close>: the index \<open>i\<close> runs from \<open>k - 1\<close>
  down to \<open>0\<close>; the result is \<open>-1\<close> when no index breaks.
\<close>

fun scanGapAt :: "token list \<Rightarrow> nat \<Rightarrow> int" where
  "scanGapAt pagination 0 = - 1"
| "scanGapAt pagination (Suc i) =
     (if succ_differs (pagination ! i) (pagination ! (i + 1)) then int i + 1
      else scanGapAt pagination i)"

text \<open>
  The shifting loop of \<open>addPage\<close>, at index \<open>i\<close> with \<open>k\<close> iterations left:
  \<open>pagination[length - 2 - i] = pagination[length - 3 - i]\<close>.
\<close>

fun shiftLoop :: "nat \<Rightarrow> nat \<Rightarrow> token list \<Rightarrow> token list" where
  "shiftLoop i 0 pagination = pagination"
| "shiftLoop i (Suc k) pagination =
     shiftLoop (i + 1) k
       (pagination[length pagination - 2 - i := pagination ! (length pagination - 3 - i)])"

text \<open>
  \<open>addPage\<close>, returning the array it mutates. The scan starts at \<open>length - 2\<close>, which is
  at least \<open>1\<close> after the two writes of the first branch, so it reads inside the array.
\<close>

definition addPage :: "token list \<Rightarrow> int \<Rightarrow> int \<Rightarrow> string \<Rightarrow> token list" where
  "addPage pagination page position gapSymbol =
     (let lastItem = js_nth pagination (int (length pagination) - 1);
          secondLastItem = js_nth pagination (int (length pagination) - 2);
          p1 =
            (if lastItem = Some (Str gapSymbol) \<and> secondLastItem = Some (Num (page - 2)) then
               (let p2 = (pagination[length pagination - 1 := Num (page - 1)]) @ [Num page]
                in if position < 1 then
                     (let gapAt = scanGapAt p2 (length p2 - 1)
                      in if gapAt \<ge> 0 then
                           (let p3 = p2 @ [Num page];
                                p4 = shiftLoop 0 (nat (int (length p3) - gapAt - 2)) p3
                            in p4[nat gapAt := Str gapSymbol])
                         else p2)
                   else p2)
             else if lastItem \<noteq> Some (Num page) then pagination @ [Num page]
             else pagination)
      in if js_nth p1 1 = Some (Str gapSymbol) \<and> js_nth p1 2 = Some (Num 3)
         then p1[1 := Num 2] else p1)"

section \<open>Building the sequence\<close>

text \<open>
  The loop that fills \<open>tempPages\<close>, at index \<open>i\<close> with \<open>k\<close> iterations left; \<open>value\<close> is
  \<open>None\<close> when it is \<open>NaN\<close>, for which both tests of the source are false.
\<close>

fun lowerLoop :: "token list \<Rightarrow> int \<Rightarrow> int list \<Rightarrow> int \<Rightarrow> nat \<Rightarrow> int option \<Rightarrow> int list \<Rightarrow> int list" where
  "lowerLoop pagination pd jumps i 0 val tempPages = tempPages"
| "lowerLoop pagination pd jumps i (Suc k) val tempPages =
     (let val' = (case val of None \<Rightarrow> None | Some v \<Rightarrow> findLowerValuesFor 1 v i pd jumps);
          tempPages' =
            (case val' of
               Some v \<Rightarrow>
                 if v > 1 \<and> indexOf pagination (Num v) < 0 then tempPages @ [v] else tempPages
             | None \<Rightarrow> tempPages)
      in lowerLoop pagination pd jumps (i + 1) k val' tempPages')"

text \<open>
  One iteration of the loop over \<open>page\<close> in \<open>generatePaginationArray\<close>. The last entry
  of the array is a number or the gap symbol; for anything else \<open>baseValue\<close> and \<open>value\<close>
  are \<open>NaN\<close> (\<open>None\<close>), \<open>value < max\<close> is false and the literal page is appended.
\<close>

definition pageStep :: "int \<Rightarrow> int \<Rightarrow> int \<Rightarrow> string \<Rightarrow> int list \<Rightarrow> token list \<Rightarrow> int \<Rightarrow> token list" where
  "pageStep cur mx pd gapSymbol jumpValues pagination page =
     (let minPagesForComplex = 7 + pd * 4 in
      if page = 1 \<or> page = mx \<or> page = cur then addPage pagination page 0 gapSymbol
      else if page < cur \<and> indexOf pagination (Str gapSymbol) < 0 \<and>
              int (length pagination) < pd + 2 \<and> pd > 0 then
        (let tempPages = lowerLoop pagination pd jumpValues 0 (nat (pd + 1)) (Some (cur - pd - 1)) []
         in foldl (\<lambda>acc p. addPage acc p (- 1) gapSymbol) pagination (rev tempPages) @ [Str gapSymbol])
      else if page \<ge> cur - pd \<and> page \<le> cur + pd then addPage pagination page 0 gapSymbol
      else if page > cur then
        (if cur + pd + 1 = page \<and> page \<noteq> mx - 1 then pagination @ [Str gapSymbol]
         else if int (length pagination) < minPagesForComplex - 1 then
           (let lastPage = js_nth pagination (int (length pagination) - 1);
                baseValue = (if lastPage = Some (Str gapSymbol) then Some page
                             else (case lastPage of Some (Num n) \<Rightarrow> Some n | _ \<Rightarrow> None));
                val = (case baseValue of
                         None \<Rightarrow> None
                       | Some b \<Rightarrow>
                           findLargerValuesFor b mx
                             (minPagesForComplex - int (length pagination) - 2) jumpValues)
            in (case val of
                  Some v \<Rightarrow>
                    if v < mx then addPage pagination v 1 gapSymbol
                    else addPage pagination page 1 gapSymbol
                | None \<Rightarrow> addPage pagination page 1 gapSymbol))
         else pagination)
      else pagination)"

text \<open>
  \<open>generatePaginationArray\<close>: \<open>Array.from({ length: max }, (_, i) => i + 1)\<close> in simple
  mode, which raises the \<open>RangeError\<close> when \<open>max\<close> exceeds \<open>2^32 - 1\<close>; otherwise the loop
  \<open>for (page = 1; page <= max; page++)\<close> over an empty array. The \<open>push\<close> of the loop
  is modelled without that test: the array of the loop never has more than \<open>7 + pad * 4\<close>
  entries, which is at most \<open>max\<close> in this branch, so the limit is out of reach for every
  \<open>max\<close> below \<open>2^32\<close>.
\<close>

definition generatePaginationArray :: "int \<Rightarrow> int \<Rightarrow> int \<Rightarrow> string \<Rightarrow> int list \<Rightarrow> error + token list" where
  "generatePaginationArray cur mx pd gapSymbol jumpValues =
     (let minPagesForComplex = 7 + pd * 4 in
      if mx < minPagesForComplex then
        (if mx > 2 ^ 32 - 1 then Inl InvalidArrayLength
         else Inr (map (\<lambda>i. Num (int i + 1)) [0 ..< nat mx]))
      else Inr (foldl (pageStep cur mx pd gapSymbol jumpValues) [] [1 .. mx]))"

section \<open>The entry point\<close>

definition generatePagination :: "PaginationOptions \<Rightarrow> error + PaginationResult" where
  "generatePagination options =
     (let pd = (case opt_pad options of None \<Rightarrow> IntVal DEFAULT_PAD | Some p \<Rightarrow> p);
          gapSymbol = (case opt_gapSymbol options of None \<Rightarrow> DEFAULT_GAP | Some g \<Rightarrow> g)
      in case validateInput (opt_current options) (opt_max options) (Some pd) of
           Inl e \<Rightarrow> Inl e
         | Inr (cur, mx, pd') \<Rightarrow>
             (case (case opt_jumpValues options of
                      None \<Rightarrow> Inr DEFAULT_JUMP_VALUES
                    | Some jv \<Rightarrow> validateJumpValues jv) of
                Inl e \<Rightarrow> Inl e
              | Inr jumps \<Rightarrow>
                  (case generatePaginationArray cur mx
                          (case pd' of Some p \<Rightarrow> p | None \<Rightarrow> DEFAULT_PAD) gapSymbol jumps of
                     Inl e \<Rightarrow> Inl e
                   | Inr pages' \<Rightarrow>
                       Inr \<lparr> pages = pages',
                             hasPrevious = (cur > 1),
                             hasNext = (cur < mx),
                             totalPages = mx,
                             currentPage = cur \<rparr>)))"

section \<open>Notions of the specification\<close>

text \<open>
  The jump values the sequence builder works with: a non-empty, strictly descending list of
  positive integers.
\<close>

definition valid_jumps :: "int list \<Rightarrow> bool" where
  "valid_jumps js = (js \<noteq> [] \<and> list_all (\<lambda>j. 0 < j) js \<and> sorted_wrt (\<lambda>a b. a > b) js)"

text \<open>The pad and the gap symbol of a request, the defaults when the field is absent.\<close>

definition request_pad :: "PaginationOptions \<Rightarrow> int" where
  "request_pad options =
     (case opt_pad options of None \<Rightarrow> DEFAULT_PAD | Some (IntVal p) \<Rightarrow> p | Some NonInt \<Rightarrow> 0)"

definition request_gap :: "PaginationOptions \<Rightarrow> string" where
  "request_gap options = (case opt_gapSymbol options of None \<Rightarrow> DEFAULT_GAP | Some g \<Rightarrow> g)"

text \<open>The numeric tokens of a page sequence, from left to right.\<close>

fun page_numbers :: "token list \<Rightarrow> int list" where
  "page_numbers [] = []"
| "page_numbers (Num n # ts) = n # page_numbers ts"
| "page_numbers (Str s # ts) = page_numbers ts"





section \<open>Auxiliary notions for the proofs\<close>

text \<open>The array that \<open>generatePaginationArray\<close> returns, when it returns one.\<close>

definition returnedArray :: "int \<Rightarrow> int \<Rightarrow> int \<Rightarrow> string \<Rightarrow> int list \<Rightarrow> token list" where
  "returnedArray cur mx pd g js =
     (if mx < 7 + pd * 4 then map (\<lambda>i. Num (int i + 1)) [0 ..< nat mx]
      else foldl (pageStep cur mx pd g js) [] [1 .. mx])"

text \<open>
  \<open>addPage\<close> in two stages: the branch that appends, collapses or re-opens (\<open>addCore\<close>),
  and the final rewrite of a gap between 1 and 3 (\<open>fixup\<close>).
\<close>

definition fixup :: "string \<Rightarrow> token list \<Rightarrow> token list" where
  "fixup g p = (if js_nth p 1 = Some (Str g) \<and> js_nth p 2 = Some (Num 3) then p[1 := Num 2] else p)"

definition addCore :: "token list \<Rightarrow> int \<Rightarrow> int \<Rightarrow> string \<Rightarrow> token list" where
  "addCore pagination page position gapSymbol =
     (let lastItem = js_nth pagination (int (length pagination) - 1);
          secondLastItem = js_nth pagination (int (length pagination) - 2)
      in if lastItem = Some (Str gapSymbol) \<and> secondLastItem = Some (Num (page - 2)) then
               (let p2 = (pagination[length pagination - 1 := Num (page - 1)]) @ [Num page]
                in if position < 1 then
                     (let gapAt = scanGapAt p2 (length p2 - 1)
                      in if gapAt \<ge> 0 then
                           (let p3 = p2 @ [Num page];
                                p4 = shiftLoop 0 (nat (int (length p3) - gapAt - 2)) p3
                            in p4[nat gapAt := Str gapSymbol])
                         else p2)
                   else p2)
             else if lastItem \<noteq> Some (Num page) then pagination @ [Num page]
             else pagination)"

text \<open>Adjacent entries that count up by one.\<close>

definition counts_up :: "token list \<Rightarrow> bool" where
  "counts_up p = (\<forall>i. i + 1 < length p \<longrightarrow> \<not> succ_differs (p ! i) (p ! (i + 1)))"

text \<open>
  The shapes of the array while the loop is at a page \<open>q\<close> not beyond the window
  (\<open>q \<le> current + pad\<close>), after that page has been handled:
  \<^item> \<open>stE\<close>: every page from 1 to \<open>q\<close>, and nothing else;
  \<^item> \<open>stZ\<close>: with \<open>pad = 0\<close>, page 1 alone before the current page, and \<open>[1, current]\<close> at it;
  \<^item> \<open>stF0\<close>: before the window, page 1, the ascending left anchors and one gap symbol;
  \<^item> \<open>stH\<close>: inside the window and before the current page, the pages 1 to \<open>q - 1\<close>
    and a gap symbol that the next page will replace by \<open>q\<close>;
  \<^item> \<open>stF1\<close>: inside the window, an array with one gap symbol that ends with the
    pages of the window up to \<open>q\<close>.
\<close>

definition stE :: "int \<Rightarrow> int \<Rightarrow> int \<Rightarrow> token list \<Rightarrow> bool" where
  "stE cur pd q p \<longleftrightarrow>
     p = map Num [1 .. q] \<and>
     (q = 1 \<or> (cur - pd \<le> q \<and> (cur - pd \<le> 2 \<or> (0 < pd \<and> cur - pd \<le> pd + 5))))"

definition stZ :: "int \<Rightarrow> int \<Rightarrow> int \<Rightarrow> token list \<Rightarrow> bool" where
  "stZ cur pd q p \<longleftrightarrow>
     pd = 0 \<and> ((q < cur \<and> p = [Num 1]) \<or> (q = cur \<and> 2 \<le> cur \<and> p = [Num 1, Num cur]))"

definition stF0 :: "int \<Rightarrow> int \<Rightarrow> string \<Rightarrow> int \<Rightarrow> token list \<Rightarrow> bool" where
  "stF0 cur pd g q p \<longleftrightarrow>
     0 < pd \<and> 2 \<le> q \<and> q < cur - pd \<and>
     (\<exists>T. p = Num 1 # map Num T @ [Str g] \<and> sorted_wrt (\<lambda>a b. a < b) T \<and>
          set T \<subseteq> {2 .. cur - pd - 2} \<and> int (length T) \<le> pd + 1)"

definition stH :: "int \<Rightarrow> int \<Rightarrow> string \<Rightarrow> int \<Rightarrow> token list \<Rightarrow> bool" where
  "stH cur pd g q p \<longleftrightarrow>
     0 < pd \<and> 2 \<le> q \<and> cur - pd \<le> q \<and> q < cur \<and> cur - pd \<le> pd + 5 \<and>
     p = map Num [1 .. q - 1] @ [Str g]"

definition stF1 :: "int \<Rightarrow> int \<Rightarrow> string \<Rightarrow> int \<Rightarrow> token list \<Rightarrow> bool" where
  "stF1 cur pd g q p \<longleftrightarrow>
     0 < pd \<and> 4 \<le> cur - pd \<and> cur - pd \<le> q \<and> hd p = Num 1 \<and> count_list p (Str g) = 1 \<and>
     suffix (map Num [cur - pd .. q]) p \<and> int (length p) \<le> pd + 5 + (q - (cur - pd)) \<and>
     fixup g p = p"

definition phaseA :: "int \<Rightarrow> int \<Rightarrow> string \<Rightarrow> int \<Rightarrow> token list \<Rightarrow> bool" where
  "phaseA cur pd g q p \<longleftrightarrow>
     stE cur pd q p \<or> stZ cur pd q p \<or> stF0 cur pd g q p \<or> stH cur pd g q p \<or> stF1 cur pd g q p"

text \<open>
  The array while the loop is at a page \<open>q\<close> right of the window and before \<open>max\<close>: it
  ends with a number, except directly after the gap symbol has been appended at
  \<open>current + pad + 1\<close>, where one more entry fits the budget.
\<close>

definition phaseB :: "int \<Rightarrow> int \<Rightarrow> int \<Rightarrow> string \<Rightarrow> int \<Rightarrow> token list \<Rightarrow> bool" where
  "phaseB cur mx pd g q p \<longleftrightarrow>
     p \<noteq> [] \<and> hd p = Num 1 \<and> distinct_adj p \<and> int (length p) \<le> 4 * pd + 6 \<and>
     ((q = cur + pd + 1 \<and> q \<noteq> mx - 1 \<and> int (length p) \<le> 4 * pd + 5) \<or> (\<exists>n. last p = Num n))"

section \<open>Validation contract\<close>

lemma not_descending_iff: "not_descending js \<longleftrightarrow> \<not> sorted_wrt (\<lambda>a b. a > b) js"
proof (induction js rule: not_descending.induct)
  case (1 a b xs)
  then show ?case by fastforce
qed simp_all

lemma those_int_of:
  "list_all positive_integer jv \<Longrightarrow> \<exists>js. those (map int_of jv) = Some js \<and> jv = map IntVal js"
  by (induction jv) (auto simp: positive_integer_def int_of_def split: number.splits)


lemma list_all_positive_IntVal:
  "list_all positive_integer (map IntVal js) = list_all (\<lambda>j. 0 < j) js"
  by (induction js) (auto simp: positive_integer_def)


lemma validateJumpValues_valid:
  assumes "validateJumpValues jv = Inr js"
  shows "valid_jumps js"
proof -
  from assms have ne: "jv \<noteq> []" and pos: "list_all positive_integer jv"
    by (auto simp: validateJumpValues_def split: if_splits)
  then obtain js' where js': "those (map int_of jv) = Some js'" "jv = map IntVal js'"
    using those_int_of by blast
  with assms ne pos have "js = js'" "\<not> not_descending js'"
    by (auto simp: validateJumpValues_def split: if_splits)
  with ne pos js' show ?thesis
    by (auto simp: valid_jumps_def not_descending_iff list_all_positive_IntVal)
qed

lemma valid_default_jumps: "valid_jumps DEFAULT_JUMP_VALUES"
  by (simp add: valid_jumps_def DEFAULT_JUMP_VALUES_def)

text \<open>When the array function returns, and what.\<close>

lemma generatePaginationArray_eq:
  "generatePaginationArray cur mx pd g js =
     (if mx < 7 + pd * 4 \<and> 2 ^ 32 \<le> mx then Inl InvalidArrayLength
      else Inr (returnedArray cur mx pd g js))"
  by (auto simp: generatePaginationArray_def returnedArray_def)

text \<open>The entry point on a request that passes both validators.\<close>

lemma generatePagination_valid:
  assumes "validateInput (opt_current options) (opt_max options)
             (Some (case opt_pad options of None \<Rightarrow> IntVal DEFAULT_PAD | Some p \<Rightarrow> p)) = Inr (c, m, pd')"
    and "(case opt_jumpValues options of None \<Rightarrow> Inr DEFAULT_JUMP_VALUES
          | Some jv \<Rightarrow> validateJumpValues jv) = Inr js"
  shows "opt_current options = IntVal c \<and> opt_max options = IntVal m \<and>
         pd' = Some (request_pad options) \<and> 1 \<le> c \<and> c \<le> m \<and> 0 \<le> request_pad options \<and>
         valid_jumps js \<and>
         generatePagination options =
           (case generatePaginationArray c m (request_pad options) (request_gap options) js of
              Inl e \<Rightarrow> Inl e
            | Inr ps \<Rightarrow> Inr \<lparr>pages = ps, hasPrevious = (c > 1), hasNext = (c < m),
                              totalPages = m, currentPage = c\<rparr>)"
proof -
  from assms(1) have v: "opt_current options = IntVal c" "opt_max options = IntVal m"
    "pd' = Some (request_pad options)" "1 \<le> c" "c \<le> m" "0 \<le> request_pad options"
    by (auto simp: validateInput_def request_pad_def DEFAULT_PAD_def
        split: number.splits option.splits if_splits)
  have j: "valid_jumps js"
  proof (cases "opt_jumpValues options")
    case None
    with assms(2) valid_default_jumps show ?thesis by simp
  next
    case (Some jv)
    with assms(2) show ?thesis by (simp add: validateJumpValues_valid)
  qed
  have "generatePagination options =
           (case generatePaginationArray c m (request_pad options) (request_gap options) js of
              Inl e \<Rightarrow> Inl e
            | Inr ps \<Rightarrow> Inr \<lparr>pages = ps, hasPrevious = (c > 1), hasNext = (c < m),
                              totalPages = m, currentPage = c\<rparr>)"
    unfolding generatePagination_def Let_def request_gap_def[symmetric]
    using assms v(3) by simp
  with v j show ?thesis by simp
qed

text \<open>What an accepted request is, and what the result is built from.\<close>

lemma generatePagination_Inr:
  assumes "generatePagination options = Inr r"
  shows "\<exists>js. valid_jumps js \<and>
           opt_current options = IntVal (currentPage r) \<and>
           opt_max options = IntVal (totalPages r) \<and>
           1 \<le> currentPage r \<and> currentPage r \<le> totalPages r \<and> 0 \<le> request_pad options \<and>
           hasPrevious r = (currentPage r > 1) \<and> hasNext r = (currentPage r < totalPages r) \<and>
           pages r = returnedArray (currentPage r) (totalPages r)
                       (request_pad options) (request_gap options) js"
proof -
  from assms obtain c m pd' where vi: "validateInput (opt_current options) (opt_max options)
      (Some (case opt_pad options of None \<Rightarrow> IntVal DEFAULT_PAD | Some p \<Rightarrow> p)) = Inr (c, m, pd')"
    by (auto simp: generatePagination_def Let_def split: sum.splits)
  from assms vi obtain js where vj: "(case opt_jumpValues options of None \<Rightarrow> Inr DEFAULT_JUMP_VALUES
          | Some jv \<Rightarrow> validateJumpValues jv) = Inr js"
    by (auto simp: generatePagination_def Let_def split: sum.splits)
  from generatePagination_valid[OF vi vj] assms show ?thesis
    by (auto simp: generatePaginationArray_eq split: if_splits)
qed







section \<open>Metadata and simple mode\<close>

lemma small_request:
  "generatePagination \<lparr>opt_current = IntVal 3, opt_max = IntVal 5, opt_pad = None,
       opt_gapSymbol = None, opt_jumpValues = None\<rparr> =
   Inr \<lparr>pages = [Num 1, Num 2, Num 3, Num 4, Num 5], hasPrevious = True, hasNext = True,
        totalPages = 5, currentPage = 3\<rparr>"
  by code_simp

text \<open>
  Claim C9. For every accepted request the result has \<open>hasPrevious = (current > 1)\<close>,
  \<open>hasNext = (current < max)\<close>, \<open>totalPages = max\<close> and \<open>currentPage = current\<close>.
\<close>

theorem result_metadata:
  assumes "generatePagination options = Inr r"
    and "opt_current options = IntVal c" and "opt_max options = IntVal m"
  shows "hasPrevious r = (c > 1) \<and> hasNext r = (c < m) \<and> totalPages r = m \<and> currentPage r = c"
  using generatePagination_Inr[OF assms(1)] assms(2,3) by auto

theorem result_metadata_witness:
  "generatePagination \<lparr>opt_current = IntVal 3, opt_max = IntVal 5, opt_pad = None,
       opt_gapSymbol = None, opt_jumpValues = None\<rparr> =
     Inr \<lparr>pages = [Num 1, Num 2, Num 3, Num 4, Num 5], hasPrevious = True, hasNext = True,
          totalPages = 5, currentPage = 3\<rparr> \<and>
   hasPrevious \<lparr>pages = [Num 1, Num 2, Num 3, Num 4, Num 5], hasPrevious = True,
          hasNext = True, totalPages = 5, currentPage = 3\<rparr> = ((3::int) > 1) \<and>
   hasNext \<lparr>pages = [Num 1, Num 2, Num 3, Num 4, Num 5], hasPrevious = True,
          hasNext = True, totalPages = 5, currentPage = 3\<rparr> = ((3::int) < 5)"
  using result_metadata[OF small_request, of 3 5] small_request by simp

lemma map_Suc_upt_upto: "map (\<lambda>i. int i + 1) [0 ..< n] = [1 .. int n]"
proof (induction n)
  case 0
  show ?case by simp
next
  case (Suc n)
  have "[1 .. int (Suc n)] = [1 .. int n] @ [int n + 1]"
    using upto_rec2[of 1 "int n + 1"] by (simp add: add.commute)
  with Suc show ?case by simp
qed

lemma simple_mode_array:
  assumes "0 \<le> mx" and "mx < 7 + pd * 4"
  shows "returnedArray cur mx pd g js = map Num [1 .. mx]"
proof -
  have "map (\<lambda>i. Num (int i + 1)) [0 ..< nat mx] = map Num (map (\<lambda>i. int i + 1) [0 ..< nat mx])"
    by simp
  also have "\<dots> = map Num [1 .. mx]"
    using assms(1) by (simp only: map_Suc_upt_upto) simp
  finally show ?thesis
    using assms(2) by (simp add: returnedArray_def)
qed

text \<open>
  Claim C3. For every accepted request with \<open>max < 7 + pad * 4\<close> the pages are exactly
  the ascending run \<open>1, 2, ..., max\<close>, and no entry is a string, so no gap symbol occurs.
\<close>

theorem simple_mode_pages:
  assumes "generatePagination options = Inr r"
    and "opt_max options = IntVal m" and "m < 7 + request_pad options * 4"
  shows "pages r = map Num [1 .. m] \<and> (\<forall>s. Str s \<notin> set (pages r))"
proof -
  from generatePagination_Inr[OF assms(1)] assms(2) obtain js where
    "1 \<le> m" and "pages r = returnedArray (currentPage r) m
        (request_pad options) (request_gap options) js"
    by auto
  with assms(3) have "pages r = map Num [1 .. m]"
    by (simp add: simple_mode_array)
  then show ?thesis by auto
qed

theorem simple_mode_pages_witness:
  "generatePagination \<lparr>opt_current = IntVal 3, opt_max = IntVal 5, opt_pad = None,
       opt_gapSymbol = None, opt_jumpValues = None\<rparr> =
     Inr \<lparr>pages = [Num 1, Num 2, Num 3, Num 4, Num 5], hasPrevious = True, hasNext = True,
          totalPages = 5, currentPage = 3\<rparr> \<and>
   (5::int) < 7 + request_pad \<lparr>opt_current = IntVal 3, opt_max = IntVal 5, opt_pad = None,
       opt_gapSymbol = None, opt_jumpValues = None\<rparr> * 4 \<and>
   pages \<lparr>pages = [Num 1, Num 2, Num 3, Num 4, Num 5], hasPrevious = True, hasNext = True,
          totalPages = 5, currentPage = 3\<rparr> = map Num [1 .. 5]"
proof -
  let ?o = "\<lparr>opt_current = IntVal 3, opt_max = IntVal 5, opt_pad = None,
       opt_gapSymbol = None, opt_jumpValues = None\<rparr>"
  have p: "(5::int) < 7 + request_pad ?o * 4"
    by (simp add: request_pad_def DEFAULT_PAD_def)
  from simple_mode_pages[OF small_request _ p] small_request p show ?thesis by simp
qed

section \<open>The append rule, case by case\<close>

lemma length_shiftLoop [simp]: "length (shiftLoop i k p) = length p"
  by (induction k arbitrary: i p) auto

lemma shiftLoop_nth:
  "i + k + 2 \<le> length p \<Longrightarrow> j < length p \<Longrightarrow>
   shiftLoop i k p ! j =
     (if length p - 1 - i - k \<le> j \<and> j + 2 + i \<le> length p then p ! (j - 1) else p ! j)"
proof (induction k arbitrary: i p)
  case 0
  then show ?case by auto
next
  case (Suc k)
  define d where "d = length p - 2 - i"
  have d: "d + 2 + i = length p" "1 \<le> d" "length p - 3 - i = d - 1"
    "length p - 1 - i - Suc k = d - k" "k \<le> d - 1"
    using Suc.prems by (auto simp: d_def)
  let ?p = "p[d := p ! (d - 1)]"
  have "p[length p - 2 - i := p ! (length p - 3 - i)] = ?p"
    unfolding d(3) d_def ..
  then have "shiftLoop i (Suc k) p ! j = shiftLoop (i + 1) k ?p ! j"
    by (simp only: shiftLoop.simps)
  also have "\<dots> = (if length ?p - 1 - (i + 1) - k \<le> j \<and> j + 2 + (i + 1) \<le> length ?p
                     then ?p ! (j - 1) else ?p ! j)"
    using Suc.prems by (intro Suc.IH) auto
  also have "\<dots> = (if d - k \<le> j \<and> j \<le> d then p ! (j - 1) else p ! j)"
  proof -
    have "length ?p - 1 - (i + 1) - k = d - k" using d by simp
    moreover have "j + 2 + (i + 1) \<le> length ?p \<longleftrightarrow> j < d" using d by auto
    ultimately show ?thesis using d Suc.prems(2)
      by (cases "j = d") (auto simp: nth_list_update)
  qed
  also have "\<dots> = (if length p - 1 - i - Suc k \<le> j \<and> j + 2 + i \<le> length p then p ! (j - 1) else p ! j)"
    using d by auto
  finally show ?case .
qed

lemma shiftLoop_insert:
  assumes "1 \<le> k" and "k + 2 \<le> length q" and "q \<noteq> []" and "x = last q"
  shows "(shiftLoop 0 (length q - k - 1) (q @ [x]))[k := y] = take k q @ [y] @ drop k q"
proof (rule nth_equalityI)
  show "length ((shiftLoop 0 (length q - k - 1) (q @ [x]))[k := y]) = length (take k q @ [y] @ drop k q)"
    using assms by simp
next
  fix j assume "j < length ((shiftLoop 0 (length q - k - 1) (q @ [x]))[k := y])"
  then have j: "j \<le> length q" by simp
  have sh: "shiftLoop 0 (length q - k - 1) (q @ [x]) ! j =
     (if length (q @ [x]) - 1 - 0 - (length q - k - 1) \<le> j \<and> j + 2 + 0 \<le> length (q @ [x])
      then (q @ [x]) ! (j - 1) else (q @ [x]) ! j)"
    using assms j by (intro shiftLoop_nth) auto
  show "(shiftLoop 0 (length q - k - 1) (q @ [x]))[k := y] ! j = (take k q @ [y] @ drop k q) ! j"
  proof (cases "j = k")
    case True
    with assms show ?thesis by (simp add: nth_append)
  next
    case False
    show ?thesis
    proof (cases "j < k")
      case True
      with assms sh j show ?thesis by (simp add: nth_append)
    next
      case False
      with \<open>j \<noteq> k\<close> have gt: "k < j" by simp
      show ?thesis
      proof (cases "j = length q")
        case True
        with gt assms sh show ?thesis
          by (simp add: nth_append last_conv_nth)
      next
        case False
        with gt assms sh j show ?thesis
          by (auto simp add: nth_append)
      qed
    qed
  qed
qed

lemma scanGapAt_neg:
  "scanGapAt p n < 0 \<longleftrightarrow> (\<forall>i<n. \<not> succ_differs (p ! i) (p ! (i + 1)))"
  by (induction n) (auto simp: less_Suc_eq)

lemma scanGapAt_pos:
  "0 \<le> scanGapAt p n \<Longrightarrow>
   \<exists>i<n. scanGapAt p n = int i + 1 \<and> succ_differs (p ! i) (p ! (i + 1)) \<and>
          (\<forall>j. i < j \<and> j < n \<longrightarrow> \<not> succ_differs (p ! j) (p ! (j + 1)))"
proof (induction n)
  case 0
  then show ?case by simp
next
  case (Suc n)
  show ?case
  proof (cases "succ_differs (p ! n) (p ! (n + 1))")
    case True
    then show ?thesis by (intro exI[of _ n]) auto
  next
    case False
    with Suc obtain i where "i < n" "scanGapAt p n = int i + 1" "succ_differs (p ! i) (p ! (i + 1))"
       "\<forall>j. i < j \<and> j < n \<longrightarrow> \<not> succ_differs (p ! j) (p ! (j + 1))"
      by auto
    with False show ?thesis
      by (intro exI[of _ i]) (auto simp: less_Suc_eq)
  qed
qed

lemma fixup_cases:
  obtains (unchanged) "fixup g p = p"
  | (rewritten) a rest where "p = a # Str g # Num 3 # rest" "fixup g p = a # Num 2 # Num 3 # rest"
proof (cases "js_nth p 1 = Some (Str g) \<and> js_nth p 2 = Some (Num 3)")
  case True
  then have len: "3 \<le> length p" and e: "p ! 1 = Str g" "p ! 2 = Num 3"
    by (auto simp: js_nth_def split: if_splits)
  then obtain a b c rest where p: "p = a # b # c # rest"
    by (cases p; cases "tl p"; cases "tl (tl p)") auto
  with e have "p = a # Str g # Num 3 # rest" by simp
  moreover from this have "fixup g p = a # Num 2 # Num 3 # rest"
    by (simp add: fixup_def js_nth_def)
  ultimately show ?thesis by (rule rewritten)
next
  case False
  then have "fixup g p = p" by (auto simp: fixup_def)
  then show ?thesis by (rule unchanged)
qed

lemma collapse_cond_iff:
  "js_nth p (int (length p) - 1) = Some (Str g) \<and> js_nth p (int (length p) - 2) = Some (Num n)
   \<longleftrightarrow> (\<exists>xs. p = xs @ [Num n, Str g])"
proof (cases p rule: rev_cases)
  case Nil
  then show ?thesis by (simp add: js_nth_def)
next
  case (snoc ys b)
  show ?thesis
  proof (cases ys rule: rev_cases)
    case Nil
    with snoc show ?thesis by (simp add: js_nth_def)
  next
    case (snoc xs a)
    with \<open>p = ys @ [b]\<close> show ?thesis
      by (auto simp: js_nth_def nth_append)
  qed
qed

lemma last_cond_iff:
  "js_nth p (int (length p) - 1) = Some t \<longleftrightarrow> p \<noteq> [] \<and> last p = t"
  by (cases p rule: rev_cases) (auto simp: js_nth_def)

lemma addPage_fixup: "addPage p page pos g = fixup g (addCore p page pos g)"
  unfolding addPage_def addCore_def fixup_def Let_def by (rule refl)

lemma addCore_same:
  assumes "p \<noteq> []" "last p = Num page"
  shows "addCore p page pos g = p"
  using assms by (simp add: addCore_def last_cond_iff Let_def)

lemma addCore_push:
  assumes "\<nexists>xs. p = xs @ [Num (page - 2), Str g]" and "p = [] \<or> last p \<noteq> Num page"
  shows "addCore p page pos g = p @ [Num page]"
proof -
  have "\<not> (js_nth p (int (length p) - 1) = Some (Str g) \<and> js_nth p (int (length p) - 2) = Some (Num (page - 2)))"
    using assms(1) collapse_cond_iff[of p g "page - 2"] by blast
  moreover have "js_nth p (int (length p) - 1) \<noteq> Some (Num page)"
    using assms(2) by (auto simp: last_cond_iff)
  ultimately show ?thesis
    unfolding addCore_def Let_def by (simp only: if_False if_True simp_thms)
qed

lemma addCore_collapse_raw:
  assumes "p = xs @ [Num (page - 2), Str g]"
  defines "q \<equiv> xs @ [Num (page - 2), Num (page - 1), Num page]"
  shows "addCore p page pos g =
     (if pos < 1 \<and> 0 \<le> scanGapAt q (length q - 1)
      then (shiftLoop 0 (nat (int (length (q @ [Num page])) - scanGapAt q (length q - 1) - 2)) (q @ [Num page]))
                     [nat (scanGapAt q (length q - 1)) := Str g]
      else q)"
proof -
  have c: "js_nth p (int (length p) - 1) = Some (Str g) \<and> js_nth p (int (length p) - 2) = Some (Num (page - 2))"
    using assms(1) collapse_cond_iff[of p g "page - 2"] by blast
  have q: "p[length p - 1 := Num (page - 1)] @ [Num page] = q"
    by (simp add: assms list_update_append)
  show ?thesis
    unfolding addCore_def Let_def q using c by simp
qed

lemma addCore_collapse_plain:
  assumes "p = xs @ [Num (page - 2), Str g]"
    and "1 \<le> pos \<or> counts_up (xs @ [Num (page - 2), Num (page - 1), Num page])"
  shows "addCore p page pos g = xs @ [Num (page - 2), Num (page - 1), Num page]"
proof -
  let ?q = "xs @ [Num (page - 2), Num (page - 1), Num page]"
  have "pos < 1 \<Longrightarrow> scanGapAt ?q (length ?q - 1) < 0"
    using assms(2) unfolding scanGapAt_neg counts_up_def by auto
  then show ?thesis
    unfolding addCore_collapse_raw[OF assms(1)] by auto
qed

lemma addCore_collapse_reopen:
  assumes "p = xs @ [Num (page - 2), Str g]" and "pos < 1"
    and "\<not> counts_up (xs @ [Num (page - 2), Num (page - 1), Num page])"
  shows "\<exists>k. 1 \<le> k \<and> k \<le> length xs \<and>
             succ_differs ((xs @ [Num (page - 2)]) ! (k - 1)) ((xs @ [Num (page - 2)]) ! k) \<and>
             counts_up (drop k (xs @ [Num (page - 2)])) \<and>
             addCore p page pos g =
               take k xs @ [Str g] @ drop k xs @ [Num (page - 2), Num (page - 1), Num page]"
proof -
  let ?q = "xs @ [Num (page - 2), Num (page - 1), Num page]"
  let ?n = "length ?q - 1"
  have nonneg: "0 \<le> scanGapAt ?q ?n"
    using assms(3) scanGapAt_neg[of ?q ?n] unfolding counts_up_def by (auto simp: not_less)
  from scanGapAt_pos[OF this] obtain i where i: "i < ?n" "scanGapAt ?q ?n = int i + 1"
    "succ_differs (?q ! i) (?q ! (i + 1))"
    "\<forall>j. i < j \<and> j < ?n \<longrightarrow> \<not> succ_differs (?q ! j) (?q ! (j + 1))"
    by blast
  have ilt: "i < length xs"
  proof (rule ccontr)
    assume "\<not> i < length xs"
    with i(1) have "i = length xs \<or> i = length xs + 1" by auto
    with i(3) show False by (auto simp: nth_append)
  qed
  define k where "k = i + 1"
  have k: "1 \<le> k" "k \<le> length xs" using ilt by (auto simp: k_def)
  have sd: "succ_differs ((xs @ [Num (page - 2)]) ! (k - 1)) ((xs @ [Num (page - 2)]) ! k)"
    using i(3) ilt by (auto simp: k_def nth_append split: if_splits)
  have cu: "counts_up (drop k (xs @ [Num (page - 2)]))"
  proof -
    define ys where "ys = xs @ [Num (page - 2)]"
    have "\<not> succ_differs (drop k ys ! j) (drop k ys ! (j + 1))" if j: "j + 1 < length (drop k ys)" for j
    proof -
      from j have "i < k + j" "k + j < ?n" by (auto simp: k_def ys_def)
      with i(4) have "\<not> succ_differs (?q ! (k + j)) (?q ! (k + j + 1))" by blast
      moreover have "?q ! (k + j) = ys ! (k + j)" "?q ! (k + j + 1) = ys ! (k + j + 1)"
        using j by (auto simp: nth_append ys_def)
      moreover have "drop k ys ! j = ys ! (k + j)" "drop k ys ! (j + 1) = ys ! (k + j + 1)"
        using j by (simp_all add: add.assoc)
      ultimately show ?thesis by simp
    qed
    then show ?thesis unfolding counts_up_def ys_def by blast
  qed
  have "addCore p page pos g =
      (shiftLoop 0 (nat (int (length (?q @ [Num page])) - scanGapAt ?q ?n - 2)) (?q @ [Num page]))
                     [nat (scanGapAt ?q ?n) := Str g]"
    unfolding addCore_collapse_raw[OF assms(1)] using assms(2) nonneg by simp
  also have "nat (scanGapAt ?q ?n) = k" using i(2) by (simp add: k_def)
  also have "nat (int (length (?q @ [Num page])) - scanGapAt ?q ?n - 2) = length ?q - k - 1"
    using i(2) k by (simp add: k_def)
  also have "(shiftLoop 0 (length ?q - k - 1) (?q @ [Num page]))[k := Str g] = take k ?q @ [Str g] @ drop k ?q"
    using k by (intro shiftLoop_insert) auto
  also have "\<dots> = take k xs @ [Str g] @ drop k xs @ [Num (page - 2), Num (page - 1), Num page]"
    using k by simp
  finally show ?thesis using k sd cu by blast
qed

lemma addCore_cases [case_names same push collapse reopen]:
  obtains (same) "p \<noteq> []" "last p = Num page" "addCore p page pos g = p"
  | (push) "\<nexists>xs. p = xs @ [Num (page - 2), Str g]" "p = [] \<or> last p \<noteq> Num page"
      "addCore p page pos g = p @ [Num page]"
  | (collapse) xs where "p = xs @ [Num (page - 2), Str g]"
      "1 \<le> pos \<or> counts_up (xs @ [Num (page - 2), Num (page - 1), Num page])"
      "addCore p page pos g = xs @ [Num (page - 2), Num (page - 1), Num page]"
  | (reopen) xs k where "p = xs @ [Num (page - 2), Str g]" "pos < 1" "1 \<le> k" "k \<le> length xs"
      "succ_differs ((xs @ [Num (page - 2)]) ! (k - 1)) ((xs @ [Num (page - 2)]) ! k)"
      "counts_up (drop k (xs @ [Num (page - 2)]))"
      "addCore p page pos g = take k xs @ [Str g] @ drop k xs @ [Num (page - 2), Num (page - 1), Num page]"
proof (cases "\<exists>xs. p = xs @ [Num (page - 2), Str g]")
  case True
  then obtain xs where xs: "p = xs @ [Num (page - 2), Str g]" ..
  show ?thesis
  proof (cases "1 \<le> pos \<or> counts_up (xs @ [Num (page - 2), Num (page - 1), Num page])")
    case True
    from collapse[OF xs True addCore_collapse_plain[OF xs True]] show ?thesis .
  next
    case False
    then have "pos < 1" "\<not> counts_up (xs @ [Num (page - 2), Num (page - 1), Num page])" by auto
    from addCore_collapse_reopen[OF xs this] reopen[OF xs \<open>pos < 1\<close>] show ?thesis by blast
  qed
next
  case False
  show ?thesis
  proof (cases "p = [] \<or> last p \<noteq> Num page")
    case True
    from push[OF False True addCore_push[OF False True]] show ?thesis .
  next
    case False
    then have "p \<noteq> []" "last p = Num page" by auto
    from same[OF this addCore_same[OF this]] show ?thesis .
  qed
qed

lemma length_fixup [simp]: "length (fixup g p) = length p"
  by (simp add: fixup_def)

lemma fixup_Nil_iff [simp]: "fixup g p = [] \<longleftrightarrow> p = []"
  by (simp add: fixup_def)

lemma hd_fixup [simp]: "hd (fixup g p) = hd p"
  by (cases rule: fixup_cases[where g=g and p=p]) auto

lemma last_fixup [simp]: "last (fixup g p) = last p"
  by (cases rule: fixup_cases[where g=g and p=p]) auto

lemma Num_in_fixup: "Num x \<in> set p \<Longrightarrow> Num x \<in> set (fixup g p)"
  by (cases rule: fixup_cases[where g=g and p=p]) auto

lemma addCore_not_Nil: "addCore p page pos g \<noteq> []"
  by (cases rule: addCore_cases[where p=p and page=page and pos=pos and g=g]) auto

lemma last_addCore: "last (addCore p page pos g) = Num page"
  by (cases rule: addCore_cases[where p=p and page=page and pos=pos and g=g]) auto

lemma hd_addCore: "p \<noteq> [] \<Longrightarrow> hd (addCore p page pos g) = hd p"
proof (cases rule: addCore_cases[where p=p and page=page and pos=pos and g=g])
  case (reopen xs k)
  then show ?thesis by (cases xs) (auto simp: hd_append)
qed (auto simp: hd_append)

lemma Num_in_addCore: "Num x \<in> set p \<Longrightarrow> Num x \<in> set (addCore p page pos g)"
proof (cases rule: addCore_cases[where p=p and page=page and pos=pos and g=g])
  case (reopen xs k)
  assume "Num x \<in> set p"
  with reopen(1) have "Num x \<in> set xs \<or> x = page - 2" by auto
  moreover have "set xs = set (take k xs) \<union> set (drop k xs)"
    by (metis append_take_drop_id set_append)
  ultimately show ?thesis using reopen(7) by auto
qed auto

lemma addPage_not_Nil: "addPage p page pos g \<noteq> []"
  by (simp add: addPage_fixup addCore_not_Nil)

lemma last_addPage: "last (addPage p page pos g) = Num page"
  by (simp add: addPage_fixup last_addCore)

lemma hd_addPage: "p \<noteq> [] \<Longrightarrow> hd (addPage p page pos g) = hd p"
  by (simp add: addPage_fixup hd_addCore)

lemma Num_in_addPage: "Num x \<in> set p \<Longrightarrow> Num x \<in> set (addPage p page pos g)"
  by (simp add: addPage_fixup Num_in_addCore Num_in_fixup)

lemma page_in_addPage: "Num page \<in> set (addPage p page pos g)"
  using last_addPage[of p page pos g] addPage_not_Nil[of p page pos g] last_in_set by metis

lemma addPage_Nil: "addPage [] page pos g = [Num page]"
  by (simp add: addPage_def js_nth_def)

text \<open>The batch of left anchors.\<close>

lemma foldl_addPage_not_Nil:
  "p \<noteq> [] \<Longrightarrow> foldl (\<lambda>acc t. addPage acc t pos g) p ts \<noteq> []"
  by (induction ts arbitrary: p) (auto simp: addPage_not_Nil)

lemma hd_foldl_addPage:
  "p \<noteq> [] \<Longrightarrow> hd (foldl (\<lambda>acc t. addPage acc t pos g) p ts) = hd p"
  by (induction ts arbitrary: p) (auto simp: addPage_not_Nil hd_addPage)

lemma Num_in_foldl_addPage:
  "Num x \<in> set p \<Longrightarrow> Num x \<in> set (foldl (\<lambda>acc t. addPage acc t pos g) p ts)"
  by (induction ts arbitrary: p) (auto simp: Num_in_addPage)

lemma pageStep_not_Nil: "p \<noteq> [] \<Longrightarrow> pageStep cur mx pd g js p page \<noteq> []"
  by (auto simp: pageStep_def Let_def addPage_not_Nil split: option.splits)

lemma hd_pageStep: "p \<noteq> [] \<Longrightarrow> hd (pageStep cur mx pd g js p page) = hd p"
  by (auto simp: pageStep_def Let_def hd_addPage hd_append foldl_addPage_not_Nil hd_foldl_addPage
      split: option.splits)

lemma Num_in_pageStep: "Num x \<in> set p \<Longrightarrow> Num x \<in> set (pageStep cur mx pd g js p page)"
  by (auto simp: pageStep_def Let_def Num_in_addPage Num_in_foldl_addPage split: option.splits)

lemma foldl_pageStep_hd:
  "p \<noteq> [] \<Longrightarrow> foldl (pageStep cur mx pd g js) p qs \<noteq> [] \<and>
     hd (foldl (pageStep cur mx pd g js) p qs) = hd p"
  by (induction qs arbitrary: p) (auto simp: pageStep_not_Nil hd_pageStep)

lemma Num_in_foldl_pageStep:
  "Num x \<in> set p \<Longrightarrow> Num x \<in> set (foldl (pageStep cur mx pd g js) p qs)"
  by (induction qs arbitrary: p) (auto simp: Num_in_pageStep)

lemma complex_mode_array:
  "7 + pd * 4 \<le> mx \<Longrightarrow>
   returnedArray cur mx pd g js = foldl (pageStep cur mx pd g js) [] [1 .. mx]"
  by (simp add: returnedArray_def)

lemma array_first_last:
  assumes "1 \<le> cur" "cur \<le> mx" "0 \<le> pd"
  shows "returnedArray cur mx pd g js \<noteq> [] \<and>
         hd (returnedArray cur mx pd g js) = Num 1 \<and>
         last (returnedArray cur mx pd g js) = Num mx"
proof (cases "mx < 7 + pd * 4")
  case True
  from assms have "[1 .. mx] = 1 # [2 .. mx]" "[1 .. mx] = [1 .. mx - 1] @ [mx]"
    using upto_rec1[of 1 mx] upto_rec2[of 1 mx] by simp_all
  then have "[1 .. mx] \<noteq> [] \<and> hd [1 .. mx] = 1 \<and> last [1 .. mx] = mx"
    by (metis last_snoc list.sel(1) list.distinct(1))
  with assms True show ?thesis
    by (simp add: simple_mode_array hd_map last_map)
next
  case False
  let ?f = "pageStep cur mx pd g js"
  from False assms have big: "7 \<le> mx" by auto
  then have s1: "[1 .. mx] = 1 # [2 .. mx]" and s2: "[1 .. mx] = [1 .. mx - 1] @ [mx]"
    using upto_rec1[of 1 mx] upto_rec2[of 1 mx] by simp_all
  have first: "?f [] 1 = [Num 1]"
    by (simp add: pageStep_def addPage_Nil)
  have "foldl ?f [] [1 .. mx] = foldl ?f [Num 1] [2 .. mx]"
    by (simp only: s1 foldl_Cons first)
  with foldl_pageStep_hd[of "[Num 1]" cur mx pd g js "[2 .. mx]"]
  have h: "foldl ?f [] [1 .. mx] \<noteq> []" "hd (foldl ?f [] [1 .. mx]) = Num 1" by auto
  have "foldl ?f [] [1 .. mx] = ?f (foldl ?f [] [1 .. mx - 1]) mx"
    by (simp only: s2 foldl_append foldl_Cons foldl_Nil)
  also have "\<dots> = addPage (foldl ?f [] [1 .. mx - 1]) mx 0 g"
    by (simp add: pageStep_def)
  finally have "last (foldl ?f [] [1 .. mx]) = Num mx"
    by (simp add: last_addPage)
  with h False show ?thesis by (simp add: complex_mode_array)
qed

lemma array_contains_current:
  assumes "1 \<le> cur" "cur \<le> mx" "0 \<le> pd"
  shows "Num cur \<in> set (returnedArray cur mx pd g js)"
proof (cases "mx < 7 + pd * 4")
  case True
  with assms show ?thesis by (simp add: simple_mode_array)
next
  case False
  let ?f = "pageStep cur mx pd g js"
  from assms have s: "[1 .. mx] = [1 .. cur - 1] @ cur # [cur + 1 .. mx]"
    using upto_split3[of 1 cur mx] by simp
  have "?f (foldl ?f [] [1 .. cur - 1]) cur = addPage (foldl ?f [] [1 .. cur - 1]) cur 0 g"
    by (simp add: pageStep_def)
  then have "Num cur \<in> set (?f (foldl ?f [] [1 .. cur - 1]) cur)"
    by (simp add: page_in_addPage)
  then have "Num cur \<in> set (foldl ?f [] [1 .. mx])"
    by (simp only: s foldl_append foldl_Cons Num_in_foldl_pageStep)
  with False show ?thesis by (simp add: complex_mode_array)
qed


section \<open>First, last and current page\<close>

text \<open>
  Claim C1. For every accepted request the pages are not empty, the first token is the page
  number 1 and the last token is the page number \<open>max\<close>; when \<open>max = 1\<close> the two are
  the single token 1.
\<close>
theorem first_and_last_page:
  assumes "generatePagination options = Inr r" and "opt_max options = IntVal m"
  shows "pages r \<noteq> [] \<and> hd (pages r) = Num 1 \<and> last (pages r) = Num m \<and>
         (m = 1 \<longrightarrow> pages r = [Num 1])"
proof -
  from generatePagination_Inr[OF assms(1)] assms(2) obtain js where
    v: "1 \<le> currentPage r" "currentPage r \<le> m" "0 \<le> request_pad options" and
    p: "pages r = returnedArray (currentPage r) m
        (request_pad options) (request_gap options) js"
    by auto
  from array_first_last[OF v] p have
    "pages r \<noteq> [] \<and> hd (pages r) = Num 1 \<and> last (pages r) = Num m" by simp
  moreover have "pages r = [Num 1]" if "m = 1"
    using that v p by (simp add: simple_mode_array)
  ultimately show ?thesis by blast
qed

theorem first_and_last_page_witness:
  "generatePagination \<lparr>opt_current = IntVal 50, opt_max = IntVal 100,
          opt_pad = Some (IntVal 1), opt_gapSymbol = None, opt_jumpValues = None\<rparr> =
        Inr \<lparr>pages = [Num 1, Num 15, Num 25, Str DEFAULT_GAP, Num 49, Num 50, Num 51,
                      Str DEFAULT_GAP, Num 60, Num 75, Num 100],
             hasPrevious = True, hasNext = True, totalPages = 100, currentPage = 50\<rparr> \<and>
   last (pages \<lparr>pages = [Num 1, Num 15, Num 25, Str DEFAULT_GAP, Num 49, Num 50, Num 51,
                      Str DEFAULT_GAP, Num 60, Num 75, Num 100],
             hasPrevious = True, hasNext = True, totalPages = 100, currentPage = 50\<rparr>) = Num 100"
proof -
  have e: "generatePagination \<lparr>opt_current = IntVal 50, opt_max = IntVal 100,
          opt_pad = Some (IntVal 1), opt_gapSymbol = None, opt_jumpValues = None\<rparr> =
        Inr \<lparr>pages = [Num 1, Num 15, Num 25, Str DEFAULT_GAP, Num 49, Num 50, Num 51,
                      Str DEFAULT_GAP, Num 60, Num 75, Num 100],
             hasPrevious = True, hasNext = True, totalPages = 100, currentPage = 50\<rparr>"
    by code_simp
  from first_and_last_page[OF e, of 100] e show ?thesis by simp
qed

text \<open>
  Claim C8. For every accepted request the page number \<open>current\<close> is a numeric token of
  the pages: it is appended when the loop reaches it, and no later step removes a number.
\<close>
theorem current_page_present:
  assumes "generatePagination options = Inr r" and "opt_current options = IntVal c"
  shows "Num c \<in> set (pages r)"
proof -
  from generatePagination_Inr[OF assms(1)] assms(2) obtain js where
    v: "1 \<le> c" "c \<le> totalPages r" "0 \<le> request_pad options" and
    p: "pages r = returnedArray c (totalPages r)
        (request_pad options) (request_gap options) js"
    by auto
  from array_contains_current[OF v] p show ?thesis by simp
qed

theorem current_page_present_witness:
  "generatePagination \<lparr>opt_current = IntVal 3, opt_max = IntVal 5, opt_pad = None,
       opt_gapSymbol = None, opt_jumpValues = None\<rparr> =
     Inr \<lparr>pages = [Num 1, Num 2, Num 3, Num 4, Num 5], hasPrevious = True, hasNext = True,
          totalPages = 5, currentPage = 3\<rparr> \<and>
   Num 3 \<in> set (pages \<lparr>pages = [Num 1, Num 2, Num 3, Num 4, Num 5], hasPrevious = True,
          hasNext = True, totalPages = 5, currentPage = 3\<rparr>)"
  using current_page_present[OF small_request, of 3] small_request by simp

section \<open>The anchors on the left\<close>

lemma findIndex_bounds: "- 1 \<le> findIndex P xs \<and> findIndex P xs < int (length xs)"
  by (induction xs) (auto simp: Let_def)

lemma findIndex_neg_iff: "findIndex P xs < 0 \<longleftrightarrow> (\<forall>x \<in> set xs. \<not> P x)"
  using findIndex_bounds[of P] by (induction xs) (auto simp: Let_def)

lemma indexOf_neg_iff: "indexOf xs v < 0 \<longleftrightarrow> v \<notin> set xs"
  by (auto simp: indexOf_def findIndex_neg_iff)

lemma valid_jumps_nth_pos:
  "valid_jumps js \<Longrightarrow> js_nth js i = Some j \<Longrightarrow> 0 < j"
  by (auto simp: valid_jumps_def js_nth_def list_all_length split: if_splits)

lemma js_rem_pos: "0 < a \<Longrightarrow> 0 < b \<Longrightarrow> 0 \<le> js_rem a b"
  by (simp add: js_rem_def)

lemma js_rem_nonpos: "a \<le> 0 \<Longrightarrow> 0 < b \<Longrightarrow> a - js_rem a b \<le> 0"
proof -
  assume a: "a \<le> 0" and b: "0 < b"
  have "\<bar>a\<bar> mod \<bar>b\<bar> \<le> \<bar>a\<bar>" by (rule zmod_le_nonneg_dividend) simp
  with a b show ?thesis
    by (cases "a = 0") (auto simp: js_rem_def sgn_if)
qed

text \<open>Every lower anchor lies below the ceiling it was computed from, or is not a page.\<close>

lemma findLowerValuesFor_below:
  assumes "valid_jumps js" and "findLowerValuesFor mn mx it pd js = Some v"
  shows "v \<le> max 0 (mx - 1)"
proof -
  define j0 where "j0 = findIndex (\<lambda>jump. jump < mx) js"
  define ji where "ji = (if j0 \<ge> 0 then j0 else int (length js) - 1)"
  define mg where "mg = marginLoop mn mx js ji (nat (pd - it)) 0"
  note pos = valid_jumps_nth_pos[OF assms(1)]
  show ?thesis
  proof (cases "it \<le> 0")
    case False
    with assms(2) obtain jm where "js_nth js (ji - mg) = Some jm" "v = mx - jm"
      by (auto simp: findLowerValuesFor_def Let_def j0_def[symmetric] ji_def[symmetric] mg_def[symmetric])
    with pos[of "ji - mg" jm] show ?thesis by auto
  next
    case True
    with assms(2) obtain j where j: "js_nth js ji = Some j"
      by (auto simp: findLowerValuesFor_def Let_def j0_def[symmetric] ji_def[symmetric] mg_def[symmetric]
          split: option.splits)
    then have jp: "0 < j" using pos by blast
    have r: "mx - js_rem mx j \<le> max 0 (mx - 1)" if "js_rem mx j \<noteq> 0"
    proof (cases "0 < mx")
      case True
      with jp js_rem_pos[of mx j] that show ?thesis by auto
    next
      case False
      with jp js_rem_nonpos[of mx j] show ?thesis by auto
    qed
    from True assms(2) j consider
        "js_rem mx j = 0" "mg = 0" "v = mx - j"
      | jm where "js_rem mx j = 0" "js_nth js (ji - mg) = Some jm" "v = mx - j - jm"
      | "js_rem mx j \<noteq> 0" "mg = 0" "v = mx - js_rem mx j"
      | jm where "js_rem mx j \<noteq> 0" "js_nth js (ji - mg) = Some jm" "v = mx - js_rem mx j - jm"
      by (auto simp: findLowerValuesFor_def Let_def j0_def[symmetric] ji_def[symmetric] mg_def[symmetric]
          split: if_splits)
    then show ?thesis
    proof cases
      case 1
      with jp show ?thesis by auto
    next
      case (2 jm)
      with jp pos[of "ji - mg" jm] show ?thesis by auto
    next
      case 3
      with r show ?thesis by auto
    next
      case (4 jm)
      with r pos[of "ji - mg" jm] show ?thesis by auto
    qed
  qed
qed

text \<open>What the loop over the lower anchors collects.\<close>

lemma lowerLoop_None: "lowerLoop p pd js i k None acc = acc"
  by (induction k arbitrary: i acc) auto

lemma lowerLoop_collects:
  assumes "valid_jumps js"
  shows "\<exists>T. lowerLoop p pd js i k (Some v0) acc = acc @ T \<and> length T \<le> k \<and>
             sorted_wrt (\<lambda>a b. a > b) T \<and> (\<forall>v \<in> set T. 1 < v \<and> v < v0 \<and> Num v \<notin> set p)"
proof (induction k arbitrary: i v0 acc)
  case 0
  show ?case by simp
next
  case (Suc k)
  show ?case
  proof (cases "findLowerValuesFor 1 v0 i pd js")
    case None
    then show ?thesis by (simp add: lowerLoop_None)
  next
    case (Some v1)
    from findLowerValuesFor_below[OF assms Some] have b: "v1 \<le> max 0 (v0 - 1)" .
    show ?thesis
    proof (cases "v1 > 1 \<and> indexOf p (Num v1) < 0")
      case True
      from Suc.IH[of "i + 1" v1 "acc @ [v1]"] obtain T where
        T: "lowerLoop p pd js (i + 1) k (Some v1) (acc @ [v1]) = (acc @ [v1]) @ T" "length T \<le> k"
        "sorted_wrt (\<lambda>a b. a > b) T" "\<forall>v \<in> set T. 1 < v \<and> v < v1 \<and> Num v \<notin> set p"
        by blast
      from True b have "v1 < v0" by auto
      with T True Some show ?thesis
        by (intro exI[of _ "v1 # T"]) (auto simp: indexOf_neg_iff)
    next
      case False
      from Suc.IH[of "i + 1" v1 acc] obtain T where
        T: "lowerLoop p pd js (i + 1) k (Some v1) acc = acc @ T" "length T \<le> k"
        "sorted_wrt (\<lambda>a b. a > b) T" "\<forall>v \<in> set T. 1 < v \<and> v < v1 \<and> Num v \<notin> set p"
        by blast
      have "v < v0" if "v \<in> set T" for v
      proof -
        from that T(4) have "1 < v" "v < v1" by auto
        with b show ?thesis by auto
      qed
      with T False Some show ?thesis
        by (intro exI[of _ T]) auto
    qed
  qed
qed

section \<open>Runs of consecutive page numbers\<close>

lemma counts_up_upto: "counts_up (map Num [a .. b])"
  by (auto simp: counts_up_def)

lemma counts_up_Cons_Cons:
  "counts_up (x # y # zs) \<longleftrightarrow> \<not> succ_differs x y \<and> counts_up (y # zs)"
proof -
  have "(\<forall>i. i < Suc (length zs) \<longrightarrow> P i) \<longleftrightarrow> P 0 \<and> (\<forall>i. i < length zs \<longrightarrow> P (Suc i))" for P
    by (metis less_Suc_eq_0_disj)
  from this[of "\<lambda>i. \<not> succ_differs ((x # y # zs) ! i) ((y # zs) ! i)"]
  show ?thesis by (simp add: counts_up_def)
qed

lemma counts_up_Num:
  "counts_up (Num a # rest) \<Longrightarrow> Num a # rest = map Num [a .. a + int (length rest)]"
proof (induction rest arbitrary: a)
  case Nil
  then show ?case by simp
next
  case (Cons x rest)
  then have x: "x = Num (a + 1)" and c: "counts_up (Num (a + 1) # rest)"
    by (auto simp: counts_up_Cons_Cons)
  from Cons.IH[OF c] have "Num (a + 1) # rest = map Num [a + 1 .. a + 1 + int (length rest)]" .
  moreover have e: "a + int (length (x # rest)) = a + 1 + int (length rest)" by simp
  have "[a .. a + int (length (x # rest))] = a # [a + 1 .. a + 1 + int (length rest)]"
    unfolding e by (rule upto_rec1) simp
  ultimately show ?case using x by simp
qed

section \<open>Length, gaps and adjacency under the append rule\<close>

lemma length_addCore: "length (addCore p page pos g) \<le> length p + 2"
  by (cases rule: addCore_cases[where p=p and page=page and pos=pos and g=g]) simp_all

lemma length_addCore_1:
  "1 \<le> pos \<or> p = [] \<or> last p \<noteq> Str g \<Longrightarrow> length (addCore p page pos g) \<le> length p + 1"
  by (cases rule: addCore_cases[where p=p and page=page and pos=pos and g=g]) simp_all

lemma length_addPage: "length (addPage p page pos g) \<le> length p + 2"
  using length_addCore[of p page pos g] by (simp add: addPage_fixup)

lemma length_addPage_1:
  "1 \<le> pos \<or> p = [] \<or> last p \<noteq> Str g \<Longrightarrow> length (addPage p page pos g) \<le> length p + 1"
  using length_addCore_1[of pos p g page] by (simp add: addPage_fixup)

lemma count_fixup: "count_list (fixup g p) (Str g) \<le> count_list p (Str g)"
  by (cases rule: fixup_cases[where g=g and p=p]) auto

lemma count_take_drop: "count_list (take k xs) y + count_list (drop k xs) y = count_list xs y"
  by (metis append_take_drop_id count_list_append)

lemma count_addCore: "count_list (addCore p page pos g) (Str g) \<le> count_list p (Str g)"
proof (cases rule: addCore_cases[where p=p and page=page and pos=pos and g=g])
  case (reopen xs k)
  with count_take_drop[of k xs "Str g"] show ?thesis by simp
qed auto

lemma count_addPage: "count_list (addPage p page pos g) (Str g) \<le> count_list p (Str g)"
  using count_fixup[of g "addCore p page pos g"] count_addCore[of p page pos g]
  by (simp add: addPage_fixup)

lemma count_zero_iff: "count_list xs y = 0 \<longleftrightarrow> y \<notin> set xs"
  by (induction xs) auto

lemma distinct_adj_fixup:
  assumes "distinct_adj p" and "hd p = Num 1"
  shows "distinct_adj (fixup g p)"
  using assms by (cases rule: fixup_cases[where g=g and p=p]) auto

lemma distinct_adj_insert:
  assumes "distinct_adj xs" and "y \<notin> set xs"
  shows "distinct_adj (take k xs @ [y] @ drop k xs)"
proof -
  have "distinct_adj (take k xs)" "distinct_adj (drop k xs)"
    using assms(1) by (metis append_take_drop_id distinct_adj_append_iff)+
  moreover have "take k xs = [] \<or> last (take k xs) \<noteq> y"
    using assms(2) by (metis in_set_takeD last_in_set)
  moreover have "drop k xs = [] \<or> hd (drop k xs) \<noteq> y"
    using assms(2) by (metis in_set_dropD hd_in_set)
  ultimately show ?thesis
    by (auto simp: distinct_adj_append_iff distinct_adj_Cons)
qed

lemma distinct_adj_addCore:
  assumes "distinct_adj p" and "1 \<le> pos \<or> count_list p (Str g) \<le> 1"
  shows "distinct_adj (addCore p page pos g)"
proof (cases rule: addCore_cases[where p=p and page=page and pos=pos and g=g])
  case same
  with assms show ?thesis by simp
next
  case push
  with assms show ?thesis by (auto simp: distinct_adj_append_iff)
next
  case (collapse xs)
  with assms(1) show ?thesis by (auto simp: distinct_adj_append_iff distinct_adj_Cons)
next
  case (reopen xs k)
  let ?q = "xs @ [Num (page - 2), Num (page - 1), Num page]"
  from reopen(1) assms(1) have "distinct_adj ?q"
    by (auto simp: distinct_adj_append_iff distinct_adj_Cons)
  moreover from reopen(1,2) assms(2) have "Str g \<notin> set ?q"
    by (auto simp: count_zero_iff[symmetric])
  ultimately have "distinct_adj (take k ?q @ [Str g] @ drop k ?q)"
    by (rule distinct_adj_insert)
  with reopen(4,7) show ?thesis by simp
qed

lemma distinct_adj_addPage:
  assumes "distinct_adj p" and "p = [] \<or> hd p = Num 1" and "1 \<le> pos \<or> count_list p (Str g) \<le> 1"
  shows "distinct_adj (addPage p page pos g)"
proof (cases "p = []")
  case True
  then show ?thesis by (simp add: addPage_Nil)
next
  case False
  with assms(2) have "hd (addCore p page pos g) = Num 1" by (simp add: hd_addCore)
  with distinct_adj_addCore[OF assms(1,3)] show ?thesis
    by (simp add: addPage_fixup distinct_adj_fixup)
qed

section \<open>A run of consecutive pages stays in place\<close>

lemma sublist_update_outside:
  assumes "sublist W p" and "i < length p" and "p ! i \<notin> set W"
  shows "sublist W (p[i := y])"
proof -
  from assms(1) obtain ps ss where p: "p = ps @ W @ ss" by (auto simp: sublist_def)
  show ?thesis
  proof (cases "i < length ps")
    case True
    with p have "p[i := y] = ps[i := y] @ W @ ss" by (simp add: list_update_append)
    then show ?thesis by simp
  next
    case False
    show ?thesis
    proof (cases "i < length ps + length W")
      case True
      with False p have "p ! i = W ! (i - length ps)" "i - length ps < length W"
        by (auto simp: nth_append)
      with assms(3) show ?thesis by (metis nth_mem)
    next
      case False
      then have "\<not> i - length ps < length W" by simp
      with \<open>\<not> i < length ps\<close> p have "p[i := y] = ps @ W @ ss[i - length ps - length W := y]"
        by (simp only: list_update_append if_False)
      then show ?thesis by simp
    qed
  qed
qed

lemma sublist_fixup:
  assumes "sublist (map Num W) p"
  shows "sublist (map Num W) (fixup g p)"
proof (cases "js_nth p 1 = Some (Str g) \<and> js_nth p 2 = Some (Num 3)")
  case True
  then have "1 < length p" "p ! 1 = Str g" by (auto simp: js_nth_def split: if_splits)
  with assms have "sublist (map Num W) (p[1 := Num 2])"
    by (intro sublist_update_outside) auto
  with True show ?thesis by (simp add: fixup_def)
next
  case False
  with assms show ?thesis by (auto simp: fixup_def)
qed

lemma sublist_insert_at_break:
  assumes "sublist (map Num [a .. b]) q" and "1 \<le> k" and "k < length q"
    and "succ_differs (q ! (k - 1)) (q ! k)"
  shows "sublist (map Num [a .. b]) (take k q @ [y] @ drop k q)"
proof -
  let ?W = "map Num [a .. b]"
  from assms(1) obtain ps ss where q: "q = ps @ ?W @ ss" by (auto simp: sublist_def)
  show ?thesis
  proof (cases "k \<le> length ps")
    case True
    with q have "take k q @ [y] @ drop k q = (take k ps @ [y] @ drop k ps) @ ?W @ ss" by simp
    then show ?thesis by (metis sublist_appendI)
  next
    case False
    show ?thesis
    proof (cases "k < length ps + length ?W")
      case True
      define i where "i = k - 1 - length ps"
      from True False assms(2) have i: "i + 1 < length ?W" "k - 1 = length ps + i" "k = length ps + (i + 1)"
        by (auto simp: i_def)
      have "q ! (k - 1) = ?W ! i" "q ! k = ?W ! (i + 1)"
        using i q by (auto simp: nth_append simp del: length_map length_upto)
      moreover have "\<not> succ_differs (?W ! i) (?W ! (i + 1))"
        using counts_up_upto[of a b] i(1) unfolding counts_up_def by blast
      ultimately show ?thesis using assms(4) by simp
    next
      case False
      with q have "take k q @ [y] @ drop k q =
          ps @ ?W @ (take (k - length ps - length ?W) ss @ [y] @ drop (k - length ps - length ?W) ss)"
        by (simp del: length_map length_upto)
      then show ?thesis by (metis sublist_appendI)
    qed
  qed
qed

lemma sublist_addCore:
  assumes "sublist (map Num [a .. b]) p"
  shows "sublist (map Num [a .. b]) (addCore p page pos g)"
proof (cases rule: addCore_cases[where p=p and page=page and pos=pos and g=g])
  case same
  with assms show ?thesis by simp
next
  case push
  with assms show ?thesis by (metis append_Nil sublist_append sublist_order.order_refl sublist_order.dual_order.trans sublist_append_rightI)
next
  case (collapse xs)
  have "sublist (map Num [a .. b]) (p[length p - 1 := Num (page - 1)])"
    using assms collapse(1) by (intro sublist_update_outside) (auto simp: nth_append)
  moreover have "p[length p - 1 := Num (page - 1)] @ [Num page] = addCore p page pos g"
    using collapse by (simp add: list_update_append)
  ultimately show ?thesis
    by (metis sublist_append_rightI sublist_order.dual_order.trans)
next
  case (reopen xs k)
  let ?q = "xs @ [Num (page - 2), Num (page - 1), Num page]"
  have "sublist (map Num [a .. b]) (p[length p - 1 := Num (page - 1)])"
    using assms reopen(1) by (intro sublist_update_outside) (auto simp: nth_append)
  moreover have "p[length p - 1 := Num (page - 1)] @ [Num page] = ?q"
    using reopen(1) by (simp add: list_update_append)
  ultimately have q: "sublist (map Num [a .. b]) ?q"
    by (metis sublist_append_rightI sublist_order.dual_order.trans)
  have "succ_differs (?q ! (k - 1)) (?q ! k)"
    using reopen(3,4,5) by (auto simp: nth_append split: if_splits)
  with q reopen(3,4) have "sublist (map Num [a .. b]) (take k ?q @ [Str g] @ drop k ?q)"
    by (intro sublist_insert_at_break) auto
  with reopen(4,7) show ?thesis by simp
qed

lemma sublist_addPage:
  "sublist (map Num [a .. b]) p \<Longrightarrow> sublist (map Num [a .. b]) (addPage p page pos g)"
  by (simp add: addPage_fixup sublist_addCore sublist_fixup)

lemma sublist_foldl_addPage:
  "sublist (map Num [a .. b]) p \<Longrightarrow>
   sublist (map Num [a .. b]) (foldl (\<lambda>acc t. addPage acc t pos g) p ts)"
  by (induction ts arbitrary: p) (auto simp: sublist_addPage)

lemma sublist_snoc_keep: "sublist W p \<Longrightarrow> sublist W (p @ [y])"
  by (metis sublist_append_rightI sublist_order.dual_order.trans)

lemma sublist_pageStep:
  "sublist (map Num [a .. b]) p \<Longrightarrow> sublist (map Num [a .. b]) (pageStep cur mx pd g js p page)"
  by (auto simp: pageStep_def Let_def sublist_addPage sublist_foldl_addPage sublist_snoc_keep
      split: option.splits)

lemma sublist_foldl_pageStep:
  "sublist (map Num [a .. b]) p \<Longrightarrow>
   sublist (map Num [a .. b]) (foldl (pageStep cur mx pd g js) p qs)"
  by (induction qs arbitrary: p) (auto simp: sublist_pageStep)

section \<open>The branches of one loop iteration\<close>

lemma pageStep_always:
  "page = 1 \<or> page = mx \<or> page = cur \<Longrightarrow> pageStep cur mx pd g js p page = addPage p page 0 g"
  by (auto simp: pageStep_def)

lemma pageStep_batch:
  assumes "page \<noteq> 1" "page \<noteq> mx" "page \<noteq> cur"
    and "page < cur" "Str g \<notin> set p" "int (length p) < pd + 2" "0 < pd"
  shows "pageStep cur mx pd g js p page =
           foldl (\<lambda>acc t. addPage acc t (- 1) g) p
             (rev (lowerLoop p pd js 0 (nat (pd + 1)) (Some (cur - pd - 1)) [])) @ [Str g]"
  using assms by (simp add: pageStep_def indexOf_neg_iff Let_def)

lemma pageStep_window:
  assumes "\<not> (page < cur \<and> Str g \<notin> set p \<and> int (length p) < pd + 2 \<and> 0 < pd)"
    and "cur - pd \<le> page" "page \<le> cur + pd"
  shows "pageStep cur mx pd g js p page = addPage p page 0 g"
  using assms by (auto simp: pageStep_def indexOf_neg_iff Let_def)

lemma pageStep_skip:
  assumes "page \<noteq> 1" "page \<noteq> mx"
    and "\<not> (Str g \<notin> set p \<and> int (length p) < pd + 2 \<and> 0 < pd)"
    and "page < cur - pd" "0 \<le> pd"
  shows "pageStep cur mx pd g js p page = p"
  using assms by (auto simp: pageStep_def indexOf_neg_iff Let_def)

section \<open>The append rule on the shapes of the left phase\<close>

lemma fixup_no_gap: "Str g \<notin> set p \<Longrightarrow> fixup g p = p"
  by (cases rule: fixup_cases[where g=g and p=p]) auto

lemma fixup_idem: "fixup g (fixup g p) = fixup g p"
  by (cases rule: fixup_cases[where g=g and p=p]) (auto simp: fixup_def js_nth_def)

lemma fixup_snoc: "3 \<le> length p \<Longrightarrow> fixup g (p @ [x]) = fixup g p @ [x]"
  by (auto simp: fixup_def js_nth_def nth_append list_update_append)

lemma upto_snoc: "a \<le> b + 1 \<Longrightarrow> [a .. b] @ [b + 1] = [a .. b + 1]"
  using upto_rec2[of a "b + 1"] by simp

lemma addPage_run:
  assumes "1 \<le> q"
  shows "addPage (map Num [1 .. q]) (q + 1) pos g = map Num [1 .. q + 1]"
proof -
  let ?p = "map Num [1 .. q]"
  from assms have l: "?p \<noteq> []" "last ?p = Num q"
    using upto_rec2[of 1 q] by auto
  have "\<nexists>xs. ?p = xs @ [Num (q + 1 - 2), Str g]"
    using l by (metis last_snoc last.simps list.distinct(1) token.distinct(1) last_appendR)
  then have "addCore ?p (q + 1) pos g = ?p @ [Num (q + 1)]"
    using l by (intro addCore_push) auto
  moreover have "?p @ [Num (q + 1)] = map Num [1 .. q + 1]"
    using upto_snoc[of 1 q] assms by (metis list.simps(8,9) map_append add.commute add_increasing zero_le_one)
  moreover have "Str g \<notin> set (map Num [1 .. q + 1])" by auto
  ultimately show ?thesis by (simp add: addPage_fixup fixup_no_gap)
qed

lemma addPage_run_gap:
  assumes "2 \<le> q"
  shows "addPage (map Num [1 .. q - 1] @ [Str g]) (q + 1) 0 g = map Num [1 .. q + 1]"
proof -
  let ?xs = "map Num [1 .. q - 2]"
  have a: "[1 .. q - 1] = [1 .. q - 2] @ [q - 1]"
    using upto_rec2[of 1 "q - 1"] assms by simp
  then have p: "map Num [1 .. q - 1] @ [Str g] = ?xs @ [Num (q + 1 - 2), Str g]" by simp
  have b: "[1 .. q + 1] = [1 .. q - 2] @ [q - 1, q, q + 1]"
    using upto_rec2[of 1 "q + 1"] upto_rec2[of 1 q] a assms by simp
  then have q: "?xs @ [Num (q + 1 - 2), Num (q + 1 - 1), Num (q + 1)] = map Num [1 .. q + 1]" by simp
  have "counts_up (?xs @ [Num (q + 1 - 2), Num (q + 1 - 1), Num (q + 1)])"
    unfolding q by (rule counts_up_upto)
  then have "addCore (?xs @ [Num (q + 1 - 2), Str g]) (q + 1) 0 g =
      ?xs @ [Num (q + 1 - 2), Num (q + 1 - 1), Num (q + 1)]"
    by (intro addCore_collapse_plain) auto
  then have "addCore (map Num [1 .. q - 1] @ [Str g]) (q + 1) 0 g = map Num [1 .. q + 1]"
    unfolding p q .
  moreover have "Str g \<notin> set (map Num [1 .. q + 1])" by auto
  ultimately show ?thesis by (simp add: addPage_fixup fixup_no_gap)
qed

lemma foldl_addPage_ascending:
  assumes "p \<noteq> []" "last p = Num n" "Str g \<notin> set p"
    and "sorted_wrt (\<lambda>a b. a < b) ts" "\<forall>t \<in> set ts. n < t"
  shows "foldl (\<lambda>acc t. addPage acc t pos g) p ts = p @ map Num ts"
  using assms
proof (induction ts arbitrary: p n)
  case Nil
  then show ?case by simp
next
  case (Cons t ts)
  have "\<nexists>xs. p = xs @ [Num (t - 2), Str g]"
    using Cons.prems(3) by auto
  moreover have "last p \<noteq> Num t" using Cons.prems(2,5) by auto
  ultimately have "addCore p t pos g = p @ [Num t]"
    by (intro addCore_push) auto
  with Cons.prems(3) have a: "addPage p t pos g = p @ [Num t]"
    by (simp add: addPage_fixup fixup_no_gap)
  have "foldl (\<lambda>acc t. addPage acc t pos g) (p @ [Num t]) ts = (p @ [Num t]) @ map Num ts"
    using Cons.prems by (intro Cons.IH[of _ t]) auto
  with a show ?case by simp
qed

section \<open>The left phase, state by state\<close>

lemma step_Z:
  assumes "stZ cur pd q p" and "1 \<le> q" and "q + 1 \<le> cur + pd" and "cur \<le> mx"
  shows "stZ cur pd (q + 1) (pageStep cur mx pd g js p (q + 1))"
proof -
  from assms(1,3) have pd: "pd = 0" and p: "p = [Num 1]" and lt: "q < cur"
    by (auto simp: stZ_def)
  show ?thesis
  proof (cases "q + 1 = cur")
    case True
    then have "pageStep cur mx pd g js p (q + 1) = addPage [Num 1] cur 0 g"
      using p by (simp add: pageStep_always)
    also have "\<dots> = [Num 1, Num cur]"
      using True assms(2) by (simp add: addPage_def js_nth_def)
    finally show ?thesis using True assms(2) pd by (simp add: stZ_def)
  next
    case False
    with lt have "q + 1 < cur" by simp
    with assms(2,4) pd have "pageStep cur mx pd g js p (q + 1) = p"
      by (intro pageStep_skip) auto
    with \<open>q + 1 < cur\<close> pd p show ?thesis by (simp add: stZ_def)
  qed
qed

lemma step_H:
  assumes "stH cur pd g q p"
  shows "stE cur pd (q + 1) (pageStep cur mx pd g js p (q + 1))"
proof -
  from assms have h: "0 < pd" "2 \<le> q" "cur - pd \<le> q" "q < cur" "cur - pd \<le> pd + 5"
    and p: "p = map Num [1 .. q - 1] @ [Str g]"
    by (auto simp: stH_def)
  have "pageStep cur mx pd g js p (q + 1) = addPage p (q + 1) 0 g"
  proof (cases "q + 1 = 1 \<or> q + 1 = mx \<or> q + 1 = cur")
    case True
    then show ?thesis by (rule pageStep_always)
  next
    case False
    from p h show ?thesis by (intro pageStep_window) auto
  qed
  also have "\<dots> = map Num [1 .. q + 1]"
    unfolding p using h(2) by (rule addPage_run_gap)
  finally show ?thesis using h by (simp add: stE_def)
qed

lemma gap_shape_length:
  assumes "hd p = Num 1" and "Str g \<in> set p" and "last p = Num n"
  shows "3 \<le> length p"
proof (cases p)
  case Nil
  with assms(2) show ?thesis by simp
next
  case (Cons a p')
  show ?thesis
  proof (cases p')
    case Nil
    with Cons assms show ?thesis by auto
  next
    case (Cons b p'')
    with \<open>p = a # p'\<close> assms show ?thesis by (cases p'') auto
  qed
qed

lemma step_F1:
  assumes "stF1 cur pd g q p" and "q + 1 \<le> cur + pd"
  shows "stF1 cur pd g (q + 1) (pageStep cur mx pd g js p (q + 1))"
proof -
  from assms(1) have f: "0 < pd" "4 \<le> cur - pd" "cur - pd \<le> q" "hd p = Num 1"
    "count_list p (Str g) = 1" "int (length p) \<le> pd + 5 + (q - (cur - pd))" "fixup g p = p"
    and suf: "suffix (map Num [cur - pd .. q]) p"
    by (auto simp: stF1_def)
  from suf obtain zs where zs: "p = zs @ map Num [cur - pd .. q]" by (auto simp: suffix_def)
  have u: "[cur - pd .. q] = [cur - pd .. q - 1] @ [q]"
    using upto_rec2[of "cur - pd" q] f(3) by simp
  with zs have l: "p \<noteq> []" "last p = Num q" by auto
  have gap: "Str g \<in> set p"
    using f(5) count_zero_iff[of p "Str g"] by auto
  have len: "3 \<le> length p"
    using gap_shape_length[OF f(4) gap l(2)] .
  have "pageStep cur mx pd g js p (q + 1) = addPage p (q + 1) 0 g"
  proof (cases "q + 1 = 1 \<or> q + 1 = mx \<or> q + 1 = cur")
    case True
    then show ?thesis by (rule pageStep_always)
  next
    case False
    from gap f assms(2) show ?thesis by (intro pageStep_window) auto
  qed
  also have "addCore p (q + 1) 0 g = p @ [Num (q + 1)]"
    using l by (intro addCore_push) auto
  then have "addPage p (q + 1) 0 g = p @ [Num (q + 1)]"
    using len f(7) by (simp add: addPage_fixup fixup_snoc)
  finally have r: "pageStep cur mx pd g js p (q + 1) = p @ [Num (q + 1)]" .
  have "p @ [Num (q + 1)] = zs @ map Num [cur - pd .. q + 1]"
    using zs upto_snoc[of "cur - pd" q] f(3) by (metis append.assoc list.simps(8,9) map_append add_increasing2 zero_le_one)
  then have "suffix (map Num [cur - pd .. q + 1]) (p @ [Num (q + 1)])"
    by (simp add: suffix_def)
  moreover have "fixup g (p @ [Num (q + 1)]) = p @ [Num (q + 1)]"
    using len f(7) by (simp add: fixup_snoc)
  ultimately show ?thesis
    using f l unfolding r by (simp add: stF1_def)
qed

lemma step_E:
  assumes "stE cur pd q p" and "valid_jumps js" and "cur \<le> mx" and "0 \<le> pd"
    and "1 \<le> q" and "q + 1 \<le> cur + pd"
  shows "phaseA cur pd g (q + 1) (pageStep cur mx pd g js p (q + 1))"
proof -
  let ?step = "pageStep cur mx pd g js p (q + 1)"
  from assms(1) have p: "p = map Num [1 .. q]"
    and inv: "q = 1 \<or> (cur - pd \<le> q \<and> (cur - pd \<le> 2 \<or> (0 < pd \<and> cur - pd \<le> pd + 5)))"
    by (auto simp: stE_def)
  have nogap: "Str g \<notin> set p" using p by auto
  have len: "int (length p) = q" using p assms(5) by simp
  have l: "p \<noteq> []" "last p = Num q"
    using p upto_rec2[of 1 q] assms(5) by auto
  have bnd: "cur - pd \<le> 2 \<or> (0 < pd \<and> cur - pd \<le> pd + 5)" if "cur - pd \<le> q + 1"
    using inv that by auto
  have run: "addPage p (q + 1) 0 g = map Num [1 .. q + 1]"
    unfolding p using assms(5) by (rule addPage_run)
  have E: "phaseA cur pd g (q + 1) ?step" if "?step = addPage p (q + 1) 0 g" "cur - pd \<le> q + 1"
    using that run bnd by (simp add: phaseA_def stE_def)
  consider (always) "q + 1 = mx \<or> q + 1 = cur"
    | (batch) "q + 1 \<noteq> mx" "q + 1 \<noteq> cur" "q + 1 < cur" "q < pd + 2" "0 < pd"
    | (window) "\<not> (q + 1 < cur \<and> q < pd + 2 \<and> 0 < pd)" "cur - pd \<le> q + 1"
    | (skip) "q + 1 \<noteq> mx" "q + 1 \<noteq> cur" "\<not> (q + 1 < cur \<and> q < pd + 2 \<and> 0 < pd)" "q + 1 < cur - pd"
    by linarith
  then show ?thesis
  proof cases
    case always
    then have "?step = addPage p (q + 1) 0 g" by (intro pageStep_always) auto
    moreover from always assms(3,4) have "cur - pd \<le> q + 1" by auto
    ultimately show ?thesis by (rule E)
  next
    case window
    then have "?step = addPage p (q + 1) 0 g"
      using len assms(6) by (intro pageStep_window) auto
    then show ?thesis using window(2) by (rule E)
  next
    case skip
    with inv assms(4,5) have q1: "q = 1" and pd0: "pd = 0" by auto
    from skip q1 pd0 have "?step = p"
      by (intro pageStep_skip) auto
    with p q1 pd0 skip(4) show ?thesis by (simp add: phaseA_def stZ_def)
  next
    case batch
    from lowerLoop_collects[OF assms(2), of p pd 0 "nat (pd + 1)" "cur - pd - 1" "[]"]
    obtain T where T: "lowerLoop p pd js 0 (nat (pd + 1)) (Some (cur - pd - 1)) [] = T"
      "length T \<le> nat (pd + 1)" "sorted_wrt (\<lambda>a b. a > b) T"
      "\<forall>v \<in> set T. 1 < v \<and> v < cur - pd - 1 \<and> Num v \<notin> set p"
      by auto
    have above: "q < v" if "v \<in> set T" for v
    proof -
      from that T(4) have "1 < v" "Num v \<notin> set p" by auto
      with p show ?thesis by auto
    qed
    have asc: "sorted_wrt (\<lambda>a b. a < b) (rev T)"
      using T(3) by (simp add: sorted_wrt_rev)
    have "?step = foldl (\<lambda>acc t. addPage acc t (- 1) g) p (rev T) @ [Str g]"
      using batch assms(5) nogap len T(1) by (subst pageStep_batch) auto
    also have "foldl (\<lambda>acc t. addPage acc t (- 1) g) p (rev T) = p @ map Num (rev T)"
      using l nogap asc above by (intro foldl_addPage_ascending[of _ q]) auto
    finally have step: "?step = p @ map Num (rev T) @ [Str g]" by simp
    show ?thesis
    proof (cases "q = 1 \<and> 2 < cur - pd")
      case True
      then have "p = [Num 1]" using p by simp
      with step have "?step = Num 1 # map Num (rev T) @ [Str g]" by simp
      moreover have "set (rev T) \<subseteq> {2 .. cur - pd - 2}" using T(4) by auto
      moreover have "int (length (rev T)) \<le> pd + 1" using T(2) assms(4) by simp
      ultimately have "stF0 cur pd g (q + 1) ?step"
        using True batch(5) asc unfolding stF0_def by (intro conjI exI[of _ "rev T"]) auto
      then show ?thesis by (simp add: phaseA_def)
    next
      case False
      with inv have w: "cur - pd \<le> q + 1" by auto
      have "T = []"
      proof (rule ccontr)
        assume "T \<noteq> []"
        then obtain v where v: "v \<in> set T" by (cases T) auto
        with above T(4) have "q < v" "v < cur - pd - 1" by auto
        with w show False by simp
      qed
      with step p have "?step = map Num [1 .. q + 1 - 1] @ [Str g]" by simp
      with w bnd[OF w] batch assms(5) have "stH cur pd g (q + 1) ?step"
        unfolding stH_def by auto
      then show ?thesis by (simp add: phaseA_def)
    qed
  qed
qed

lemma counts_up_snoc:
  assumes "counts_up us" and "us \<noteq> []" and "last us = Num n"
  shows "counts_up (us @ [Num (n + 1)])"
  unfolding counts_up_def
proof (intro allI impI)
  fix i assume i: "i + 1 < length (us @ [Num (n + 1)])"
  show "\<not> succ_differs ((us @ [Num (n + 1)]) ! i) ((us @ [Num (n + 1)]) ! (i + 1))"
  proof (cases "i + 1 < length us")
    case True
    with assms(1) show ?thesis by (simp add: counts_up_def nth_append)
  next
    case False
    with i have "i = length us - 1" "i < length us" using assms(2) by auto
    with assms(2,3) show ?thesis by (simp add: nth_append last_conv_nth)
  qed
qed

lemma count_map_Num [simp]: "count_list (map Num T) (Str g) = 0"
  by (induction T) auto

lemma last_map_upto: "a \<le> n \<Longrightarrow> last (map Num [a .. n]) = Num n"
  using upto_rec2[of a n] by simp

lemma run_from:
  assumes "counts_up (Num a # rest)" and "last (Num a # rest) = Num w"
  shows "Num a # rest = map Num [a .. w] \<and> w = a + int (length rest)"
proof -
  from counts_up_Num[OF assms(1)] have e: "Num a # rest = map Num [a .. a + int (length rest)]" .
  then have "last (Num a # rest) = Num (a + int (length rest))"
    by (simp only: last_map_upto[of a "a + int (length rest)"]) 
  with assms(2) have "w = a + int (length rest)" by simp
  with e show ?thesis by simp
qed

lemma step_F0:
  assumes "stF0 cur pd g q p" and "cur \<le> mx"
  shows "phaseA cur pd g (q + 1) (pageStep cur mx pd g js p (q + 1))"
proof -
  let ?step = "pageStep cur mx pd g js p (q + 1)"
  from assms(1) obtain T where f: "0 < pd" "2 \<le> q" "q < cur - pd"
    and p: "p = Num 1 # map Num T @ [Str g]" and T: "sorted_wrt (\<lambda>a b. a < b) T"
    "set T \<subseteq> {2 .. cur - pd - 2}" "int (length T) \<le> pd + 1"
    by (auto simp: stF0_def)
  have gap: "Str g \<in> set p" using p by simp
  have cnt: "count_list p (Str g) = 1" using p by simp
  have lenp: "length p = length T + 2" using p by simp
  show ?thesis
  proof (cases "q + 1 < cur - pd")
    case True
    with f gap assms(2) have "?step = p" by (intro pageStep_skip) auto
    with True f p T have "stF0 cur pd g (q + 1) ?step"
      unfolding stF0_def by auto
    then show ?thesis by (simp add: phaseA_def)
  next
    case False
    define w where "w = q + 1"
    with False f have w: "w = cur - pd" "3 \<le> w" by auto
    have Tw: "4 \<le> w" if "T \<noteq> []"
    proof -
      from that obtain t where "t \<in> set T" by (cases T) auto
      with T(2) w show ?thesis by auto
    qed
    have step: "?step = addPage p w 0 g"
      unfolding w_def using gap f w w_def by (intro pageStep_window) auto
    show ?thesis
    proof (cases rule: addCore_cases[where p=p and page=w and pos=0 and g=g])
      case same
      with p show ?thesis by simp
    next
      case push
      have w4: "4 \<le> w"
      proof (cases "T = []")
        case True
        with p have "p = [] @ [Num 1, Str g]" by simp
        with push(1) have "w - 2 \<noteq> 1" by metis
        with w show ?thesis by simp
      next
        case False
        then show ?thesis by (rule Tw)
      qed
      have "fixup g (p @ [Num w]) = p @ [Num w]"
      proof (cases T)
        case Nil
        with p w4 show ?thesis by (simp add: fixup_def js_nth_def)
      next
        case (Cons t T')
        with p show ?thesis by (simp add: fixup_def js_nth_def)
      qed
      with push(3) step have r: "?step = p @ [Num w]" by (simp add: addPage_fixup)
      have "suffix (map Num [w .. w]) (p @ [Num w])" by (simp add: suffix_def)
      moreover have "hd (p @ [Num w]) = Num 1" using p by simp
      moreover have "int (length (p @ [Num w])) \<le> pd + 5 + (w - (cur - pd))"
        using lenp T(3) w by simp
      moreover have "fixup g (p @ [Num w]) = p @ [Num w]" by fact
      ultimately have "stF1 cur pd g w (p @ [Num w])"
        unfolding stF1_def using f(1) w4 w cnt by simp
      then show ?thesis by (simp add: phaseA_def r w_def)
    next
      case (collapse xs)
      from collapse(1) p have bl: "xs @ [Num (w - 2)] = Num 1 # map Num T"
        by (metis append.assoc append_Cons append_Nil butlast_snoc)
      then have q': "xs @ [Num (w - 2), Num (w - 1), Num w] = Num 1 # (map Num T @ [Num (w - 1), Num w])"
        by (metis append.assoc append_Cons append_Nil)
      from collapse(2) have cu: "counts_up (Num 1 # (map Num T @ [Num (w - 1), Num w]))"
        unfolding q' by simp
      from run_from[OF cu] have run: "Num 1 # (map Num T @ [Num (w - 1), Num w]) = map Num [1 .. w]"
        and wl: "w = 1 + int (length (map Num T @ [Num (w - 1), Num w]))"
        by auto
      from collapse(3) q' run have "addCore p w 0 g = map Num [1 .. w]" by simp
      moreover have "Str g \<notin> set (map Num [1 .. w])" by auto
      ultimately have r: "?step = map Num [1 .. w]"
        using step by (simp add: addPage_fixup fixup_no_gap)
      from wl T(3) have "w \<le> pd + 4" by simp
      with w f(1) have "stE cur pd w (map Num [1 .. w])"
        unfolding stE_def by simp
      then show ?thesis by (simp add: phaseA_def r w_def)
    next
      case (reopen xs k)
      let ?r = "take k xs @ [Str g] @ drop k xs @ [Num (w - 2), Num (w - 1), Num w]"
      from reopen(1) p have bl: "xs @ [Num (w - 2)] = Num 1 # map Num T"
        by (metis append.assoc append_Cons append_Nil butlast_snoc)
      from reopen(3,4) obtain xs' where xs: "xs = Num 1 # xs'"
        using bl by (cases xs) auto
      with bl have T': "map Num T = xs' @ [Num (w - 2)]" by simp
      then have Tne: "T \<noteq> []" by auto
      have lenxs: "length xs = length T"
        using bl by (metis length_append_singleton length_Cons length_map nat.inject)
      have nog: "Str g \<notin> set xs"
        using bl by (metis Un_iff set_append set_ConsD imageE list.set_map token.distinct(1))
      have hd: "hd ?r = Num 1" using xs reopen(3) by (cases k) auto
      have cntr: "count_list ?r (Str g) = 1"
        using nog count_take_drop[of k xs "Str g"] by (simp add: count_zero_iff[symmetric])
      have lenr: "length ?r = length T + 4" using reopen(4) lenxs by simp
      show ?thesis
      proof (cases rule: fixup_cases[where g=g and p="?r"])
        case unchanged
        with reopen(7) step have r: "?step = ?r" by (simp add: addPage_fixup)
        have "suffix (map Num [w .. w]) ?r"
          by (simp add: suffix_def)
        moreover have "int (length ?r) \<le> pd + 5 + (w - (cur - pd))"
          using lenr T(3) w by simp
        ultimately have "stF1 cur pd g w ?r"
          unfolding stF1_def using f(1) Tw[OF Tne] w hd cntr unchanged by simp
        then show ?thesis by (simp add: phaseA_def r w_def)
      next
        case (rewritten a rest)
        have k1: "k = 1"
        proof (rule ccontr)
          assume "k \<noteq> 1"
          with reopen(3,4) have "2 \<le> k" "1 < length xs" by auto
          then have "?r ! 1 = xs ! 1" by (simp add: nth_append)
          moreover have "xs ! 1 \<in> set xs" using \<open>1 < length xs\<close> by (rule nth_mem)
          moreover have "?r ! 1 = Str g" using rewritten(1) by simp
          ultimately show False using nog by simp
        qed
        with xs rewritten(1) have a: "a = Num 1"
          and tail: "Num 3 # rest = xs' @ [Num (w - 2), Num (w - 1), Num w]"
          by auto
        from reopen(6) k1 xs have "counts_up (xs' @ [Num (w - 2)])" by simp
        from counts_up_snoc[OF this, of "w - 2"] have "counts_up ((xs' @ [Num (w - 2)]) @ [Num (w - 1)])"
          by simp
        from counts_up_snoc[OF this, of "w - 1"] have "counts_up (xs' @ [Num (w - 2), Num (w - 1), Num w])"
          by simp
        then have cu: "counts_up (Num 3 # rest)" unfolding tail .
        have "last (Num 3 # rest) = Num w" unfolding tail by simp
        from run_from[OF cu this] have run: "Num 3 # rest = map Num [3 .. w]"
          and wl: "w = 3 + int (length rest)" by auto
        have "length ?r = length rest + 3" using rewritten(1) by simp
        with lenr wl T(3) have wb: "w \<le> pd + 5" by simp
        have "[1 .. w] = 1 # 2 # [3 .. w]"
          using upto_rec1[of 1 w] upto_rec1[of 2 w] w(2) by simp
        with run a rewritten(2) have "fixup g ?r = map Num [1 .. w]" by simp
        with reopen(7) step have r: "?step = map Num [1 .. w]" by (simp add: addPage_fixup)
        from wb w f(1) have "stE cur pd w (map Num [1 .. w])"
          unfolding stE_def by simp
        then show ?thesis by (simp add: phaseA_def r w_def)
      qed
    qed
  qed
qed

lemma phaseA_step:
  assumes "phaseA cur pd g q p" and "valid_jumps js" and "cur \<le> mx" and "0 \<le> pd"
    and "1 \<le> q" and "q + 1 \<le> cur + pd"
  shows "phaseA cur pd g (q + 1) (pageStep cur mx pd g js p (q + 1))"
proof -
  from assms(1) consider "stE cur pd q p" | "stZ cur pd q p" | "stF0 cur pd g q p"
    | "stH cur pd g q p" | "stF1 cur pd g q p"
    by (auto simp: phaseA_def)
  then show ?thesis
  proof cases
    case 1
    from step_E[OF this assms(2-6)] show ?thesis .
  next
    case 2
    from step_Z[OF this assms(5,6,3)] show ?thesis by (simp add: phaseA_def)
  next
    case 3
    from step_F0[OF this assms(3)] show ?thesis .
  next
    case 4
    from step_H[OF this] show ?thesis by (simp add: phaseA_def)
  next
    case 5
    from step_F1[OF this assms(6)] show ?thesis by (simp add: phaseA_def)
  qed
qed

lemma phaseA_fold:
  assumes "valid_jumps js" and "cur \<le> mx" and "0 \<le> pd"
  shows "phaseA cur pd g q p \<Longrightarrow> 1 \<le> q \<Longrightarrow> q \<le> e \<Longrightarrow> e \<le> cur + pd \<Longrightarrow>
         phaseA cur pd g e (foldl (pageStep cur mx pd g js) p [q + 1 .. e])"
proof (induction "nat (e - q)" arbitrary: q p)
  case 0
  then have "q = e" by simp
  with 0 show ?case by simp
next
  case (Suc n)
  then have lt: "q + 1 \<le> e" by simp
  then have u: "[q + 1 .. e] = (q + 1) # [q + 1 + 1 .. e]" by (rule upto_rec1)
  have "phaseA cur pd g (q + 1) (pageStep cur mx pd g js p (q + 1))"
    using Suc.prems lt by (intro phaseA_step assms) auto
  moreover have "n = nat (e - (q + 1))" using Suc.hyps(2) by simp
  ultimately have "phaseA cur pd g e
      (foldl (pageStep cur mx pd g js) (pageStep cur mx pd g js p (q + 1)) [q + 1 + 1 .. e])"
    using Suc.prems lt by (intro Suc.hyps(1)) auto
  then show ?case by (simp only: u foldl_Cons)
qed

lemma phaseA_reached:
  assumes "valid_jumps js" and "cur \<le> mx" and "0 \<le> pd" and "1 \<le> e" and "e \<le> cur + pd"
  shows "phaseA cur pd g e (foldl (pageStep cur mx pd g js) [] [1 .. e])"
proof -
  have "pageStep cur mx pd g js [] 1 = [Num 1]"
    by (simp add: pageStep_def addPage_Nil)
  then have "phaseA cur pd g 1 (pageStep cur mx pd g js [] 1)"
    by (simp add: phaseA_def stE_def)
  from phaseA_fold[OF assms(1-3) this _ assms(4,5)]
  have "phaseA cur pd g e (foldl (pageStep cur mx pd g js) (pageStep cur mx pd g js [] 1) [1 + 1 .. e])"
    by simp
  moreover have "[1 .. e] = 1 # [1 + 1 .. e]" using assms(4) by (rule upto_rec1)
  ultimately show ?thesis by (simp only: foldl_Cons)
qed

text \<open>The array when the loop has passed the window.\<close>

lemma phaseA_end:
  assumes "phaseA cur pd g q p" and "1 \<le> cur" and "0 \<le> pd" and "cur \<le> q" and "q \<le> cur + pd"
  shows "suffix (map Num [max 1 (cur - pd) .. q]) p \<and> int (length p) \<le> 4 * pd + 4 \<and>
         p \<noteq> [] \<and> last p = Num q \<and> hd p = Num 1 \<and> count_list p (Str g) \<le> 1"
proof -
  from assms(1) consider "stE cur pd q p" | "stZ cur pd q p" | "stF0 cur pd g q p"
    | "stH cur pd g q p" | "stF1 cur pd g q p"
    by (auto simp: phaseA_def)
  then show ?thesis
  proof cases
    case 1
    then have p: "p = map Num [1 .. q]"
      and b: "q = 1 \<or> (cur - pd \<le> 2 \<or> (0 < pd \<and> cur - pd \<le> pd + 5))"
      by (auto simp: stE_def)
    let ?a = "max 1 (cur - pd)"
    have "[1 .. q] = [1 .. ?a - 1] @ [?a .. q]"
      using assms by (intro upto_split1) auto
    then have "suffix (map Num [?a .. q]) p"
      unfolding p by (metis map_append suffixI)
    moreover have "int (length p) \<le> 4 * pd + 4"
      using p b assms by auto
    moreover have "last p = Num q" "p \<noteq> []"
      using p assms upto_rec2[of 1 q] by auto
    moreover have "hd p = Num 1"
      using p assms upto_rec1[of 1 q] by auto
    moreover have "count_list p (Str g) = 0" unfolding p by simp
    ultimately show ?thesis by simp
  next
    case 2
    with assms have "pd = 0" "p = [Num 1, Num cur]" "q = cur" "2 \<le> cur"
      by (auto simp: stZ_def)
    then show ?thesis by (simp add: suffix_def)
  next
    case 3
    with assms show ?thesis by (auto simp: stF0_def)
  next
    case 4
    with assms show ?thesis by (auto simp: stH_def)
  next
    case 5
    then have f: "0 < pd" "4 \<le> cur - pd" "cur - pd \<le> q" "hd p = Num 1"
      "count_list p (Str g) = 1" "int (length p) \<le> pd + 5 + (q - (cur - pd))"
      and suf: "suffix (map Num [cur - pd .. q]) p"
      by (auto simp: stF1_def)
    from suf obtain zs where zs: "p = zs @ map Num [cur - pd .. q]" by (auto simp: suffix_def)
    have "[cur - pd .. q] = [cur - pd .. q - 1] @ [q]"
      using upto_rec2[of "cur - pd" q] f(3) by simp
    with zs have "p \<noteq> []" "last p = Num q" by auto
    moreover have "max 1 (cur - pd) = cur - pd" using f(2) by simp
    ultimately show ?thesis using f suf assms by simp
  qed
qed

section \<open>The window around the current page\<close>

lemma window_in_array:
  assumes "valid_jumps js" and "1 \<le> cur" and "cur \<le> mx" and "0 \<le> pd"
  shows "sublist (map Num [max 1 (cur - pd) .. min mx (cur + pd)])
           (returnedArray cur mx pd g js)"
proof (cases "mx < 7 + pd * 4")
  case True
  let ?a = "max 1 (cur - pd)" and ?b = "min mx (cur + pd)"
  have "[1 .. mx] = [1 .. ?a - 1] @ [?a .. mx]"
    using assms by (intro upto_split1) auto
  also have "[?a .. mx] = [?a .. ?b] @ [?b + 1 .. mx]"
    using assms by (intro upto_split2) auto
  finally have "map Num [1 .. mx] = map Num [1 .. ?a - 1] @ map Num [?a .. ?b] @ map Num [?b + 1 .. mx]"
    by simp
  then have "sublist (map Num [?a .. ?b]) (map Num [1 .. mx])"
    unfolding sublist_def by blast
  with True assms show ?thesis by (simp add: simple_mode_array)
next
  case False
  let ?f = "pageStep cur mx pd g js"
  define e where "e = min mx (cur + pd)"
  have e: "1 \<le> e" "e \<le> cur + pd" "cur \<le> e" "e \<le> mx" using assms by (auto simp: e_def)
  from phaseA_reached[OF assms(1,3,4) e(1,2)]
  have "phaseA cur pd g e (foldl ?f [] [1 .. e])" .
  from phaseA_end[OF this assms(2,4) e(3,2)]
  have "suffix (map Num [max 1 (cur - pd) .. e]) (foldl ?f [] [1 .. e])" by simp
  then have "sublist (map Num [max 1 (cur - pd) .. e]) (foldl ?f [] [1 .. e])" by simp
  then have "sublist (map Num [max 1 (cur - pd) .. e]) (foldl ?f (foldl ?f [] [1 .. e]) [e + 1 .. mx])"
    by (rule sublist_foldl_pageStep)
  moreover have "[1 .. mx] = [1 .. e] @ [e + 1 .. mx]"
    using e by (intro upto_split2) auto
  ultimately have "sublist (map Num [max 1 (cur - pd) .. e]) (foldl ?f [] [1 .. mx])"
    by (simp only: foldl_append)
  with False show ?thesis by (simp add: complex_mode_array e_def)
qed

text \<open>
  Claim C2. For every accepted request, with any pad and any jump values, the integers of
  the window \<open>max(1, current - pad) .. min(max, current + pad)\<close> occur in the pages as
  one block of consecutive tokens, in ascending order, with no gap symbol between them.
\<close>
theorem window_present:
  assumes "generatePagination options = Inr r"
    and "opt_current options = IntVal c" and "opt_max options = IntVal m"
  shows "\<exists>before after.
           pages r = before @
             map Num [max 1 (c - request_pad options) .. min m (c + request_pad options)] @ after"
proof -
  from generatePagination_Inr[OF assms(1)] assms(2,3) obtain js where
    v: "valid_jumps js" "1 \<le> c" "c \<le> m" "0 \<le> request_pad options" and
    p: "pages r = returnedArray c m (request_pad options) (request_gap options) js"
    by auto
  from window_in_array[OF v] p show ?thesis by (simp add: sublist_def)
qed

theorem window_present_witness:
  "generatePagination \<lparr>opt_current = IntVal 50, opt_max = IntVal 100,
          opt_pad = Some (IntVal 1), opt_gapSymbol = None, opt_jumpValues = None\<rparr> =
        Inr \<lparr>pages = [Num 1, Num 15, Num 25, Str DEFAULT_GAP, Num 49, Num 50, Num 51,
                      Str DEFAULT_GAP, Num 60, Num 75, Num 100],
             hasPrevious = True, hasNext = True, totalPages = 100, currentPage = 50\<rparr> \<and>
   (\<exists>before after. [Num 1, Num 15, Num 25, Str DEFAULT_GAP, Num 49, Num 50, Num 51,
                      Str DEFAULT_GAP, Num 60, Num 75, Num 100] =
      before @ [Num 49, Num 50, Num 51] @ after)"
proof -
  let ?o = "\<lparr>opt_current = IntVal 50, opt_max = IntVal 100,
          opt_pad = Some (IntVal 1), opt_gapSymbol = None, opt_jumpValues = None\<rparr>"
  have e: "generatePagination ?o =
        Inr \<lparr>pages = [Num 1, Num 15, Num 25, Str DEFAULT_GAP, Num 49, Num 50, Num 51,
                      Str DEFAULT_GAP, Num 60, Num 75, Num 100],
             hasPrevious = True, hasNext = True, totalPages = 100, currentPage = 50\<rparr>"
    by code_simp
  have w: "[max 1 (50 - request_pad ?o) .. min 100 (50 + request_pad ?o)] = [49, 50, 51]"
    by (simp add: request_pad_def upto_rec1)
  from window_present[OF e, of 50 100] e show ?thesis unfolding w by simp
qed

section \<open>Adjacent tokens on the left\<close>

lemma distinct_adj_addCore_last:
  assumes "distinct_adj p" and "p = [] \<or> last p \<noteq> Str g"
  shows "distinct_adj (addCore p page pos g)"
proof (cases rule: addCore_cases[where p=p and page=page and pos=pos and g=g])
  case same
  with assms show ?thesis by simp
next
  case push
  with assms show ?thesis by (auto simp: distinct_adj_append_iff)
next
  case (collapse xs)
  with assms(2) show ?thesis by simp
next
  case (reopen xs k)
  with assms(2) show ?thesis by simp
qed

lemma distinct_adj_addPage_last:
  assumes "distinct_adj p" and "p = [] \<or> hd p = Num 1" and "p = [] \<or> last p \<noteq> Str g"
  shows "distinct_adj (addPage p page pos g)"
proof (cases "p = []")
  case True
  then show ?thesis by (simp add: addPage_Nil)
next
  case False
  with assms(2) have "hd (addCore p page pos g) = Num 1" by (simp add: hd_addCore)
  with distinct_adj_addCore_last[OF assms(1,3)] show ?thesis
    by (simp add: addPage_fixup distinct_adj_fixup)
qed

text \<open>Non-empty, starting with page 1, no two equal neighbours, at most one gap.\<close>

lemma left_addPage:
  assumes "p \<noteq> [] \<and> hd p = Num 1 \<and> distinct_adj p \<and> count_list p (Str g) \<le> c" and "c \<le> 1"
  shows "addPage p page pos g \<noteq> [] \<and> hd (addPage p page pos g) = Num 1 \<and>
         distinct_adj (addPage p page pos g) \<and> count_list (addPage p page pos g) (Str g) \<le> c"
  using assms count_addPage[of p page pos g]
  by (auto simp: addPage_not_Nil hd_addPage intro!: distinct_adj_addPage)

lemma left_foldl_addPage:
  assumes "p \<noteq> [] \<and> hd p = Num 1 \<and> distinct_adj p \<and> count_list p (Str g) \<le> c" and "c \<le> 1"
  shows "foldl (\<lambda>acc t. addPage acc t pos g) p ts \<noteq> [] \<and>
         hd (foldl (\<lambda>acc t. addPage acc t pos g) p ts) = Num 1 \<and>
         distinct_adj (foldl (\<lambda>acc t. addPage acc t pos g) p ts) \<and>
         count_list (foldl (\<lambda>acc t. addPage acc t pos g) p ts) (Str g) \<le> c"
  using assms(1)
proof (induction ts arbitrary: p)
  case Nil
  then show ?case by simp
next
  case (Cons t ts)
  from left_addPage[OF Cons.prems assms(2)] show ?case
    by (simp only: foldl_Cons) (rule Cons.IH)
qed

lemma left_pageStep:
  assumes "p \<noteq> [] \<and> hd p = Num 1 \<and> distinct_adj p \<and> count_list p (Str g) \<le> 1"
    and "page \<le> cur + pd" and "0 \<le> pd"
  shows "pageStep cur mx pd g js p page \<noteq> [] \<and> hd (pageStep cur mx pd g js p page) = Num 1 \<and>
         distinct_adj (pageStep cur mx pd g js p page) \<and>
         count_list (pageStep cur mx pd g js p page) (Str g) \<le> 1"
proof -
  let ?batch = "page < cur \<and> Str g \<notin> set p \<and> int (length p) < pd + 2 \<and> 0 < pd"
  have "pageStep cur mx pd g js p page = addPage p page 0 g"
    if "page = 1 \<or> page = mx \<or> page = cur \<or> (\<not> ?batch \<and> cur - pd \<le> page)"
    using that assms(2) pageStep_always[of page mx cur pd g js p]
      pageStep_window[of page cur g p pd mx js] by blast
  moreover have "pageStep cur mx pd g js p page = p"
    if "page \<noteq> 1" "page \<noteq> mx" "\<not> ?batch" "page < cur - pd"
    using that assms(3) by (intro pageStep_skip) auto
  moreover have "Str g \<notin> set p \<and> (\<exists>ts. pageStep cur mx pd g js p page =
      foldl (\<lambda>acc t. addPage acc t (- 1) g) p ts @ [Str g])"
    if "page \<noteq> 1" "page \<noteq> mx" "page \<noteq> cur" "?batch"
    using that pageStep_batch[of page mx cur g p pd js] by blast
  ultimately consider (add) "pageStep cur mx pd g js p page = addPage p page 0 g"
    | (batch) ts where "Str g \<notin> set p"
        "pageStep cur mx pd g js p page = foldl (\<lambda>acc t. addPage acc t (- 1) g) p ts @ [Str g]"
    | (skip) "pageStep cur mx pd g js p page = p"
    by (metis not_le_imp_less)
  then show ?thesis
  proof cases
    case add
    with left_addPage[OF assms(1), of page 0] show ?thesis by simp
  next
    case (batch ts)
    let ?r = "foldl (\<lambda>acc t. addPage acc t (- 1) g) p ts"
    from batch(1) assms(1) have "p \<noteq> [] \<and> hd p = Num 1 \<and> distinct_adj p \<and> count_list p (Str g) \<le> 0"
      by (simp add: count_zero_iff)
    from left_foldl_addPage[OF this, of "- 1" ts]
    have r: "?r \<noteq> []" "hd ?r = Num 1" "distinct_adj ?r" "count_list ?r (Str g) = 0" by auto
    from r(1,4) have "last ?r \<noteq> Str g"
      by (metis count_zero_iff last_in_set)
    with r show ?thesis unfolding batch(2)
      by (simp add: distinct_adj_append_iff)
  next
    case skip
    with assms(1) show ?thesis by simp
  qed
qed

lemma left_foldl_pageStep:
  assumes "p \<noteq> [] \<and> hd p = Num 1 \<and> distinct_adj p \<and> count_list p (Str g) \<le> 1"
    and "\<forall>page \<in> set qs. page \<le> cur + pd" and "0 \<le> pd"
  shows "distinct_adj (foldl (pageStep cur mx pd g js) p qs)"
  using assms(1,2)
proof (induction qs arbitrary: p)
  case Nil
  then show ?case by simp
next
  case (Cons x qs)
  from Cons.prems(2) have "x \<le> cur + pd" by simp
  from left_pageStep[OF Cons.prems(1) this assms(3)] Cons.prems(2) show ?case
    by (simp only: foldl_Cons) (rule Cons.IH, auto)
qed

section \<open>The right side\<close>

lemma pageStep_gap:
  assumes "page = cur + pd + 1" and "page \<noteq> mx" and "page \<noteq> mx - 1" and "1 \<le> cur" and "0 \<le> pd"
  shows "pageStep cur mx pd g js p page = p @ [Str g]"
  using assms by (simp add: pageStep_def)

lemma pageStep_right:
  assumes "cur + pd < page" and "page \<noteq> mx" and "\<not> (cur + pd + 1 = page \<and> page \<noteq> mx - 1)"
    and "1 \<le> cur" and "0 \<le> pd"
  shows "(int (length p) < 6 + 4 * pd \<longrightarrow> (\<exists>x. pageStep cur mx pd g js p page = addPage p x 1 g)) \<and>
         (\<not> int (length p) < 6 + 4 * pd \<longrightarrow> pageStep cur mx pd g js p page = p)"
proof -
  from assms have c: "\<not> (page = 1 \<or> page = mx \<or> page = cur)" "\<not> page < cur"
    "\<not> (cur - pd \<le> page \<and> page \<le> cur + pd)" "cur < page"
    by auto
  have b: "int (length p) < 7 + pd * 4 - 1 \<longleftrightarrow> int (length p) < 6 + 4 * pd" by auto
  show ?thesis
  proof (cases "int (length p) < 6 + 4 * pd")
    case True
    have "\<exists>x. pageStep cur mx pd g js p page = addPage p x 1 g"
      unfolding pageStep_def Let_def using c assms(3) True b
      by (simp only: if_False if_True simp_thms split: option.split) auto
    with True show ?thesis by simp
  next
    case False
    have "pageStep cur mx pd g js p page = p"
      unfolding pageStep_def Let_def using c assms(3) False b
      by (simp only: if_False if_True simp_thms)
    with False show ?thesis by simp
  qed
qed

lemma phaseB_init:
  assumes "p \<noteq> []" "hd p = Num 1" "distinct_adj p" "int (length p) \<le> 4 * pd + 4"
    "last p = Num (cur + pd)" and "cur + pd + 1 < mx" and "1 \<le> cur" and "0 \<le> pd"
  shows "phaseB cur mx pd g (cur + pd + 1) (pageStep cur mx pd g js p (cur + pd + 1))"
proof (cases "cur + pd + 1 = mx - 1")
  case False
  with assms have "pageStep cur mx pd g js p (cur + pd + 1) = p @ [Str g]"
    by (intro pageStep_gap) auto
  with assms False show ?thesis
    by (simp add: phaseB_def distinct_adj_append_iff)
next
  case True
  with assms pageStep_right[of cur pd "cur + pd + 1" mx p g js]
  obtain x where x: "pageStep cur mx pd g js p (cur + pd + 1) = addPage p x 1 g"
    by auto
  have "distinct_adj (addPage p x 1 g)"
    using assms by (intro distinct_adj_addPage) auto
  moreover have "length (addPage p x 1 g) \<le> length p + 1"
    by (intro length_addPage_1) simp
  ultimately show ?thesis
    using assms unfolding x
    by (simp add: phaseB_def addPage_not_Nil hd_addPage last_addPage)
qed

lemma phaseB_step:
  assumes "phaseB cur mx pd g q p" and "cur + pd < q" and "q + 1 < mx" and "1 \<le> cur" and "0 \<le> pd"
  shows "phaseB cur mx pd g (q + 1) (pageStep cur mx pd g js p (q + 1))"
proof -
  from assms(1) have b: "p \<noteq> []" "hd p = Num 1" "distinct_adj p" "int (length p) \<le> 4 * pd + 6"
    "(q = cur + pd + 1 \<and> q \<noteq> mx - 1 \<and> int (length p) \<le> 4 * pd + 5) \<or> (\<exists>n. last p = Num n)"
    by (auto simp: phaseB_def)
  from assms have r: "(int (length p) < 6 + 4 * pd \<longrightarrow>
        (\<exists>x. pageStep cur mx pd g js p (q + 1) = addPage p x 1 g)) \<and>
      (\<not> int (length p) < 6 + 4 * pd \<longrightarrow> pageStep cur mx pd g js p (q + 1) = p)"
    by (intro pageStep_right) auto
  show ?thesis
  proof (cases "int (length p) < 6 + 4 * pd")
    case True
    with r obtain x where x: "pageStep cur mx pd g js p (q + 1) = addPage p x 1 g" by auto
    have "distinct_adj (addPage p x 1 g)"
      using b by (intro distinct_adj_addPage) auto
    moreover have "length (addPage p x 1 g) \<le> length p + 1"
      by (intro length_addPage_1) simp
    ultimately show ?thesis
      using b True unfolding x
      by (simp add: phaseB_def addPage_not_Nil hd_addPage last_addPage)
  next
    case False
    with r have "pageStep cur mx pd g js p (q + 1) = p" by simp
    moreover from False b(5) have "\<exists>n. last p = Num n" by auto
    ultimately show ?thesis using b by (simp add: phaseB_def)
  qed
qed

lemma phaseB_fold:
  assumes "1 \<le> cur" and "0 \<le> pd"
  shows "phaseB cur mx pd g q p \<Longrightarrow> cur + pd < q \<Longrightarrow> q \<le> e \<Longrightarrow> e < mx \<Longrightarrow>
         phaseB cur mx pd g e (foldl (pageStep cur mx pd g js) p [q + 1 .. e])"
proof (induction "nat (e - q)" arbitrary: q p)
  case 0
  then have "q = e" by simp
  with 0 show ?case by simp
next
  case (Suc n)
  then have lt: "q + 1 \<le> e" by simp
  then have u: "[q + 1 .. e] = (q + 1) # [q + 1 + 1 .. e]" by (rule upto_rec1)
  have "phaseB cur mx pd g (q + 1) (pageStep cur mx pd g js p (q + 1))"
    using Suc.prems lt assms by (intro phaseB_step) auto
  moreover have "n = nat (e - (q + 1))" using Suc.hyps(2) by simp
  ultimately have "phaseB cur mx pd g e
      (foldl (pageStep cur mx pd g js) (pageStep cur mx pd g js p (q + 1)) [q + 1 + 1 .. e])"
    using Suc.prems lt by (intro Suc.hyps(1)) auto
  then show ?case by (simp only: u foldl_Cons)
qed

section \<open>Length and neighbours of the whole sequence\<close>

lemma left_part:
  fixes g :: string
  assumes "valid_jumps js" and "1 \<le> cur" and "cur \<le> mx" and "0 \<le> pd"
    and "cur \<le> e" and "e \<le> cur + pd"
  defines "s \<equiv> foldl (pageStep cur mx pd g js) [] [1 .. e]"
  shows "s \<noteq> [] \<and> hd s = Num 1 \<and> last s = Num e \<and> int (length s) \<le> 4 * pd + 4 \<and> distinct_adj s"
proof -
  let ?f = "pageStep cur mx pd g js"
  from assms have e1: "1 \<le> e" by simp
  from phaseA_end[OF phaseA_reached[OF assms(1,3,4) e1 assms(6)] assms(2,4,5,6)]
  have a: "s \<noteq> []" "hd s = Num 1" "last s = Num e" "int (length s) \<le> 4 * pd + 4"
    by (simp_all add: s_def)
  have first: "?f [] 1 = [Num 1]"
    by (simp add: pageStep_def addPage_Nil)
  have "[1 .. e] = 1 # [1 + 1 .. e]" using e1 by (rule upto_rec1)
  then have "s = foldl ?f [Num 1] [1 + 1 .. e]"
    unfolding s_def by (simp only: foldl_Cons first)
  moreover have "distinct_adj (foldl ?f [Num 1] [1 + 1 .. e])"
    using assms(4,6) by (intro left_foldl_pageStep) auto
  ultimately show ?thesis using a by simp
qed

lemma complex_shape:
  fixes g :: string
  assumes "valid_jumps js" and "1 \<le> cur" and "cur \<le> mx" and "0 \<le> pd" and "7 + pd * 4 \<le> mx"
  defines "s \<equiv> foldl (pageStep cur mx pd g js) [] [1 .. mx]"
  shows "distinct_adj s \<and> int (length s) \<le> 7 + pd * 4"
proof (cases "mx \<le> cur + pd")
  case True
  from left_part[OF assms(1-4) assms(3) True, of g] show ?thesis
    by (simp add: s_def)
next
  case False
  let ?f = "pageStep cur mx pd g js"
  define e where "e = cur + pd"
  define a where "a = foldl ?f [] [1 .. e]"
  from False assms have e: "cur \<le> e" "e \<le> cur + pd" "1 \<le> e" "e < mx" by (auto simp: e_def)
  from left_part[OF assms(1-4) e(1,2), of g]
  have a: "a \<noteq> []" "hd a = Num 1" "last a = Num e" "int (length a) \<le> 4 * pd + 4" "distinct_adj a"
    by (simp_all add: a_def)
  have last_step: "distinct_adj (?f b mx) \<and> int (length (?f b mx)) \<le> 7 + pd * 4"
    if "b \<noteq> []" "hd b = Num 1" "distinct_adj b" "int (length b) \<le> 4 * pd + 6" "last b = Num n"
    for b n
  proof -
    have "?f b mx = addPage b mx 0 g" by (intro pageStep_always) simp
    moreover have "distinct_adj (addPage b mx 0 g)"
      using that by (intro distinct_adj_addPage_last) auto
    moreover have "length (addPage b mx 0 g) \<le> length b + 1"
      using that by (intro length_addPage_1) simp
    ultimately show ?thesis using that(4) by simp
  qed
  show ?thesis
  proof (cases "e = mx - 1")
    case True
    then have "[1 .. mx] = [1 .. e] @ [mx]"
      using upto_rec2[of 1 mx] e by simp
    then have "s = ?f a mx"
      unfolding s_def a_def by (simp only: foldl_append foldl_Cons foldl_Nil)
    with last_step[OF a(1,2,5) _ a(3)] a(4) show ?thesis by simp
  next
    case False
    with e have lt: "e + 1 < mx" by simp
    define b where "b = foldl ?f (?f a (e + 1)) [e + 1 + 1 .. mx - 1]"
    have "phaseB cur mx pd g (e + 1) (?f a (e + 1))"
      unfolding e_def using a lt assms(2,4) unfolding e_def by (intro phaseB_init) auto
    from phaseB_fold[OF assms(2,4) this, of "mx - 1"] lt
    have "phaseB cur mx pd g (mx - 1) b"
      by (simp add: b_def e_def)
    then obtain n where b: "b \<noteq> []" "hd b = Num 1" "distinct_adj b" "int (length b) \<le> 4 * pd + 6"
      "last b = Num n"
      by (auto simp: phaseB_def)
    have "[1 .. mx] = [1 .. mx - 1] @ [mx]"
      using upto_rec2[of 1 mx] e by simp
    also have "[1 .. mx - 1] = [1 .. e] @ [e + 1 .. mx - 1]"
      using e lt by (intro upto_split2) auto
    also have "[e + 1 .. mx - 1] = (e + 1) # [e + 1 + 1 .. mx - 1]"
      using lt by (intro upto_rec1) auto
    finally have "s = ?f b mx"
      unfolding s_def b_def a_def by (simp only: foldl_append foldl_Cons foldl_Nil)
    with last_step[OF b] show ?thesis by simp
  qed
qed

lemma array_shape:
  assumes "valid_jumps js" and "1 \<le> cur" and "cur \<le> mx" and "0 \<le> pd"
  shows "distinct_adj (returnedArray cur mx pd g js) \<and>
         int (length (returnedArray cur mx pd g js)) \<le> 7 + pd * 4"
proof (cases "mx < 7 + pd * 4")
  case True
  have "distinct (map Num [1 .. mx])" by (simp add: distinct_map inj_on_def)
  then have "distinct_adj (map Num [1 .. mx])"
    by (metis distinct_adj_altdef remdups_adj_distinct)
  with True assms show ?thesis by (simp add: simple_mode_array)
next
  case False
  with complex_shape[OF assms, of g] show ?thesis by (simp add: complex_mode_array)
qed

text \<open>
  Claim C5. For every accepted request, no two adjacent tokens of the pages are the same
  page number, and the gap symbol never occupies two adjacent positions.
\<close>
theorem no_equal_neighbours:
  assumes "generatePagination options = Inr r" and "i + 1 < length (pages r)"
  shows "(\<forall>n. \<not> (pages r ! i = Num n \<and> pages r ! (i + 1) = Num n)) \<and>
         \<not> (pages r ! i = Str (request_gap options) \<and> pages r ! (i + 1) = Str (request_gap options))"
proof -
  from generatePagination_Inr[OF assms(1)] obtain js where
    v: "valid_jumps js" "1 \<le> currentPage r" "currentPage r \<le> totalPages r" "0 \<le> request_pad options" and
    p: "pages r = returnedArray (currentPage r) (totalPages r)
          (request_pad options) (request_gap options) js"
    by auto
  from array_shape[OF v] p have "distinct_adj (pages r)" by simp
  from distinct_adj_nth[OF this, of i] assms(2) have "pages r ! i \<noteq> pages r ! (i + 1)" by simp
  then show ?thesis by auto
qed

theorem no_equal_neighbours_witness:
  "generatePagination \<lparr>opt_current = IntVal 1, opt_max = IntVal 11,
          opt_pad = Some (IntVal 0), opt_gapSymbol = None, opt_jumpValues = None\<rparr> =
     Inr \<lparr>pages = [Num 1, Str DEFAULT_GAP, Num 4, Num 5, Num 10, Num 6, Num 11],
          hasPrevious = False, hasNext = True, totalPages = 11, currentPage = 1\<rparr> \<and>
   (1::nat) + 1 < length [Num 1, Str DEFAULT_GAP, Num 4, Num 5, Num 10, Num 6, Num 11] \<and>
   [Num 1, Str DEFAULT_GAP, Num 4, Num 5, Num 10, Num 6, Num 11] ! 1 \<noteq>
   [Num 1, Str DEFAULT_GAP, Num 4, Num 5, Num 10, Num 6, Num 11] ! (1 + 1)"
proof -
  let ?o = "\<lparr>opt_current = IntVal 1, opt_max = IntVal 11,
          opt_pad = Some (IntVal 0), opt_gapSymbol = None, opt_jumpValues = None\<rparr>"
  have e: "generatePagination ?o =
     Inr \<lparr>pages = [Num 1, Str DEFAULT_GAP, Num 4, Num 5, Num 10, Num 6, Num 11],
          hasPrevious = False, hasNext = True, totalPages = 11, currentPage = 1\<rparr>"
    by code_simp
  from no_equal_neighbours[OF e, of 1] e show ?thesis by simp
qed

lemma pageStep_budget:
  assumes "cur + pd < page" and "page \<noteq> mx" and "1 \<le> cur" and "0 \<le> pd"
    and "7 + pd * 4 - 1 \<le> int (length p)"
  shows "pageStep cur mx pd g js p page = p \<or> pageStep cur mx pd g js p page = p @ [Str g]"
proof (cases "cur + pd + 1 = page \<and> page \<noteq> mx - 1")
  case True
  with assms have "pageStep cur mx pd g js p page = p @ [Str g]"
    by (intro pageStep_gap) auto
  then show ?thesis ..
next
  case False
  from pageStep_right[OF assms(1,2) False assms(3,4), of p g js] assms(5)
  have "pageStep cur mx pd g js p page = p" by auto
  then show ?thesis ..
qed

text \<open>
  Claim C6. For every accepted request the pages have at most \<open>7 + pad * 4\<close> entries.
  The budget test of the loop is behind it: at a page right of the window other than
  \<open>max\<close>, an array that has reached \<open>7 + pad * 4 - 1\<close> entries receives no further
  anchor (the step leaves it as it is, or appends the gap symbol).
\<close>
theorem pages_length_bound:
  assumes "generatePagination options = Inr r"
    and "opt_current options = IntVal c" and "opt_max options = IntVal m"
  shows "int (length (pages r)) \<le> 7 + request_pad options * 4 \<and>
         (\<forall>p page js. c + request_pad options < page \<and> page \<noteq> m \<and>
              7 + request_pad options * 4 - 1 \<le> int (length p) \<longrightarrow>
            pageStep c m (request_pad options) (request_gap options) js p page = p \<or>
            pageStep c m (request_pad options) (request_gap options) js p page =
              p @ [Str (request_gap options)])"
proof -
  from generatePagination_Inr[OF assms(1)] assms(2,3) obtain js where
    v: "valid_jumps js" "1 \<le> c" "c \<le> m" "0 \<le> request_pad options" and
    p: "pages r = returnedArray c m (request_pad options) (request_gap options) js"
    by auto
  from array_shape[OF v] p have "int (length (pages r)) \<le> 7 + request_pad options * 4" by simp
  with pageStep_budget[OF _ _ v(2,4)] show ?thesis by blast
qed

theorem pages_length_bound_witness:
  "generatePagination \<lparr>opt_current = IntVal 5, opt_max = IntVal 100, opt_pad = None,
          opt_gapSymbol = None, opt_jumpValues = None\<rparr> =
     Inr \<lparr>pages = [Num 1, Num 2, Num 3, Num 4, Num 5, Num 6, Num 7, Str DEFAULT_GAP, Num 10,
                   Num 11, Num 15, Num 20, Num 25, Num 50, Num 100],
          hasPrevious = True, hasNext = True, totalPages = 100, currentPage = 5\<rparr> \<and>
   int (length [Num 1, Num 2, Num 3, Num 4, Num 5, Num 6, Num 7, Str DEFAULT_GAP, Num 10,
                Num 11, Num 15, Num 20, Num 25, Num 50, Num 100]) \<le> 7 + 2 * 4 \<and>
   (let p = [Num 1, Num 2, Num 3, Num 4, Num 5, Num 6, Num 7, Str DEFAULT_GAP, Num 10,
             Num 11, Num 15, Num 20, Num 25, Num 50]
    in (5::int) + 2 < 30 \<and> (30::int) \<noteq> 100 \<and> (7::int) + 2 * 4 - 1 \<le> int (length p) \<and>
       pageStep 5 100 2 DEFAULT_GAP DEFAULT_JUMP_VALUES p 30 = p)"
proof -
  let ?o = "\<lparr>opt_current = IntVal 5, opt_max = IntVal 100, opt_pad = None,
          opt_gapSymbol = None, opt_jumpValues = None\<rparr>"
  have e: "generatePagination ?o =
     Inr \<lparr>pages = [Num 1, Num 2, Num 3, Num 4, Num 5, Num 6, Num 7, Str DEFAULT_GAP, Num 10,
                   Num 11, Num 15, Num 20, Num 25, Num 50, Num 100],
          hasPrevious = True, hasNext = True, totalPages = 100, currentPage = 5\<rparr>"
    by code_simp
  have pd: "request_pad ?o = 2" by (simp add: request_pad_def DEFAULT_PAD_def)
  have st: "pageStep 5 100 2 DEFAULT_GAP DEFAULT_JUMP_VALUES
      [Num 1, Num 2, Num 3, Num 4, Num 5, Num 6, Num 7, Str DEFAULT_GAP, Num 10,
       Num 11, Num 15, Num 20, Num 25, Num 50] 30 =
      [Num 1, Num 2, Num 3, Num 4, Num 5, Num 6, Num 7, Str DEFAULT_GAP, Num 10,
       Num 11, Num 15, Num 20, Num 25, Num 50]"
    by code_simp
  from pages_length_bound[OF e, of 5 100] e pd st show ?thesis by (simp add: Let_def)
qed

section \<open>Scenarios\<close>

text \<open>
  Claim C10. For the request \<open>{current: 50, max: 100, pad: 1}\<close> with the default gap
  symbol and the default jump values, the pages contain 49, 50 and 51 and contain neither
  48 nor 52.
\<close>

theorem scenario_50_of_100_pad_1:
  "\<exists>r. generatePagination \<lparr>opt_current = IntVal 50, opt_max = IntVal 100,
          opt_pad = Some (IntVal 1), opt_gapSymbol = None, opt_jumpValues = None\<rparr> = Inr r \<and>
       Num 49 \<in> set (pages r) \<and> Num 50 \<in> set (pages r) \<and> Num 51 \<in> set (pages r) \<and>
       Num 48 \<notin> set (pages r) \<and> Num 52 \<notin> set (pages r)"
proof -
  have "generatePagination \<lparr>opt_current = IntVal 50, opt_max = IntVal 100,
          opt_pad = Some (IntVal 1), opt_gapSymbol = None, opt_jumpValues = None\<rparr> =
        Inr \<lparr>pages = [Num 1, Num 15, Num 25, Str DEFAULT_GAP, Num 49, Num 50, Num 51,
                      Str DEFAULT_GAP, Num 60, Num 75, Num 100],
             hasPrevious = True, hasNext = True, totalPages = 100, currentPage = 50\<rparr>"
    by code_simp
  then show ?thesis by simp
qed

text \<open>
  Claim C7. The numeric tokens are not always increasing. For \<open>{current: 10, max: 21}\<close>
  with all defaults the right side places the anchors 15 and 20; from 20 the next anchor
  would be \<open>max\<close>, so the loop falls back to the literal page 16 and appends it after 20.
\<close>

theorem out_of_order_anchor:
  "generatePagination \<lparr>opt_current = IntVal 10, opt_max = IntVal 21,
          opt_pad = None, opt_gapSymbol = None, opt_jumpValues = None\<rparr> =
   Inr \<lparr>pages = [Num 1, Num 3, Num 4, Num 5, Str DEFAULT_GAP, Num 8, Num 9, Num 10, Num 11,
                 Num 12, Str DEFAULT_GAP, Num 15, Num 20, Num 16, Num 21],
        hasPrevious = True, hasNext = True, totalPages = 21, currentPage = 10\<rparr> \<and>
   \<not> sorted_wrt (\<lambda>a b. a < b)
       (page_numbers [Num 1, Num 3, Num 4, Num 5, Str DEFAULT_GAP, Num 8, Num 9, Num 10, Num 11,
                      Num 12, Str DEFAULT_GAP, Num 15, Num 20, Num 16, Num 21])"
proof -
  have "generatePagination \<lparr>opt_current = IntVal 10, opt_max = IntVal 21,
          opt_pad = None, opt_gapSymbol = None, opt_jumpValues = None\<rparr> =
     Inr \<lparr>pages = [Num 1, Num 3, Num 4, Num 5, Str DEFAULT_GAP, Num 8, Num 9, Num 10, Num 11,
                   Num 12, Str DEFAULT_GAP, Num 15, Num 20, Num 16, Num 21],
          hasPrevious = True, hasNext = True, totalPages = 21, currentPage = 10\<rparr>"
    by code_simp
  then show ?thesis by simp
qed

end
